theory Spec2Isabelle
  imports Complex_Main "HOL-Library.Sublist" "HOL-Library.AList"
begin

section \<open>Shared helpers: JavaScript strings, errors, outcomes\<close>

text \<open>
  A string is the list of the bytes of its UTF-8 encoding. On such encodings \<open>includes\<close>
  and \<open>endsWith\<close> are what they are on the strings themselves.

  \<open>ascii_lower\<close> turns the letters A to Z into lower case and leaves every other byte as
  it is. It is the case folding of a regular expression with the flag \<open>i\<close> (and without
  the flag \<open>u\<close>) whose pattern is ASCII: there a character outside ASCII never matches an
  ASCII letter. It is not \<open>String.prototype.toLowerCase\<close>, which lowers every cased
  letter of Unicode; that function belongs to the runtime and is a parameter of the
  scheduler's world below.
\<close>

definition lower_char :: "char \<Rightarrow> char" where
  "lower_char c =
     (case map_of (zip ''ABCDEFGHIJKLMNOPQRSTUVWXYZ'' ''abcdefghijklmnopqrstuvwxyz'') c of
        None \<Rightarrow> c
      | Some d \<Rightarrow> d)"

definition ascii_lower :: "string \<Rightarrow> string" where
  "ascii_lower s = map lower_char s"

text \<open>\<open>s.includes(p)\<close>: \<open>p\<close> occurs in \<open>s\<close> as a contiguous substring.\<close>

fun str_includes :: "string \<Rightarrow> string \<Rightarrow> bool" where
  "str_includes [] p = (p = [])"
| "str_includes (c # cs) p = (prefix p (c # cs) \<or> str_includes cs p)"

text \<open>\<open>s.endsWith(p)\<close>.\<close>

definition endsWith :: "string \<Rightarrow> string \<Rightarrow> bool" where
  "endsWith s p = suffix p s"

text \<open>
  A thrown JavaScript error: its \<open>code\<close> property (absent on most errors) and its
  message. \<open>String(err)\<close> puts the name of the error class and a colon before the
  message; no pattern that the program searches an error text for occurs in such a
  prefix, so the searches are modelled on the message.
\<close>

record err =
  err_code :: "string option"
  err_str :: string

text \<open>An awaited call either returns a value or throws.\<close>

datatype 'a outcome = Returned 'a | Thrown err

section \<open>sftpPool.js: the connection pool\<close>

definition MAX_CONN :: nat where "MAX_CONN = 10"
definition CONNECT_GAP_MS :: int where "CONNECT_GAP_MS = 1000"
definition IDLE_MS :: int where "IDLE_MS = 90000"
definition OP_RETRIES :: nat where "OP_RETRIES = 2"
definition BREAKER_BASE_MS :: int where "BREAKER_BASE_MS = 60000"
definition LOCAL_RETRIES :: nat where "LOCAL_RETRIES = 6"
definition BACKOFF_MS :: int where "BACKOFF_MS = 2000"

text \<open>
  \<open>transient(e)\<close>: the regular expression
  \<open>/ECONN|handshake|keepalive|not connected|socket|channel|no response/i\<close>
  tested on \<open>String(e||'')\<close>.
\<close>

definition transient :: "string \<Rightarrow> bool" where
  "transient e =
     (let l = ascii_lower e in
      list_ex (str_includes l)
        [''econn'', ''handshake'', ''keepalive'', ''not connected'', ''socket'', ''channel'',
         ''no response''])"

text \<open>
  A pool entry \<open>{client, busy, lastUse, ok}\<close>. A client object is identified by the
  number under which it was constructed.
\<close>

record entry =
  client :: nat
  busy :: bool
  lastUse :: int
  ok :: bool

text \<open>
  The private fields of \<open>SftpPool\<close> (\<open>#next\<close> is \<open>nxt\<close>), together with the parts of
  the world its methods read and change: the clock \<open>Date.now()\<close> in milliseconds, the
  number of \<open>SftpClient\<close> objects constructed so far, and the number of handshakes
  (\<open>client.connect\<close> calls) started so far.
\<close>

record pool_state =
  pool :: "entry list"
  nxt :: nat
  lastHS :: int
  fails :: nat
  breakerUntil :: int
  now :: int
  clients :: nat
  handshakes :: nat

text \<open>The state of a freshly constructed pool at clock time \<open>t\<close>.\<close>

definition new_pool :: "int \<Rightarrow> pool_state" where
  "new_pool t =
     \<lparr>pool = [], nxt = 0, lastHS = 0, fails = 0, breakerUntil = 0, now = t, clients = 0,
      handshakes = 0\<rparr>"

text \<open>
  The remote endpoint: the result of the \<open>n\<close>-th handshake of the process, \<open>None\<close> when
  \<open>client.connect\<close> resolves and \<open>Some e\<close> when it rejects with \<open>e\<close>.
\<close>

type_synonym endpoint = "nat \<Rightarrow> err option"

text \<open>\<open>await sleep(ms)\<close> resumes when the clock has advanced by \<open>ms\<close>.\<close>

definition sleep :: "int \<Rightarrow> pool_state \<Rightarrow> pool_state" where
  "sleep ms s = s\<lparr>now := now s + ms\<rparr>"

text \<open>Assignment to a field of the entry object held at index \<open>e\<close> of the pool.\<close>

definition upd_entry :: "nat \<Rightarrow> (entry \<Rightarrow> entry) \<Rightarrow> pool_state \<Rightarrow> pool_state" where
  "upd_entry e f s = s\<lparr>pool := (pool s)[e := f (pool s ! e)]\<rparr>"

text \<open>\<open>#newEntry()\<close> followed by \<open>this.#pool.push(entry)\<close>.\<close>

definition newEntry :: "pool_state \<Rightarrow> pool_state" where
  "newEntry s =
     s\<lparr>pool := pool s @ [\<lparr>client = clients s, busy = False, lastUse = 0, ok = False\<rparr>],
       clients := clients s + 1\<rparr>"

function awaitBreaker :: "pool_state \<Rightarrow> pool_state" where
  "awaitBreaker s =
     (if breakerUntil s > now s then awaitBreaker (sleep (breakerUntil s - now s) s) else s)"
  by pat_completeness auto
termination
  by (relation "measure (\<lambda>s. nat (breakerUntil s - now s))") (auto simp: sleep_def)

definition failure :: "pool_state \<Rightarrow> pool_state" where
  "failure s =
     (let f = fails s + 1
      in s\<lparr>fails := f, breakerUntil := now s + BREAKER_BASE_MS * 2 ^ min (f - 1) 5\<rparr>)"

definition success :: "pool_state \<Rightarrow> pool_state" where
  "success s = s\<lparr>fails := 0, breakerUntil := 0\<rparr>"

text \<open>
  The part of \<open>#connect(entry)\<close> from \<open>this.#lastHS = Date.now()\<close> on, for the entry at
  index \<open>e\<close>: the handshake, and what follows it.
\<close>

definition handshake :: "endpoint \<Rightarrow> nat \<Rightarrow> pool_state \<Rightarrow> unit outcome \<times> pool_state" where
  "handshake ep e s =
     (let s3 = s\<lparr>lastHS := now s\<rparr>;
          s4 = s3\<lparr>handshakes := handshakes s3 + 1\<rparr>
      in case ep (handshakes s3) of
           Some x \<Rightarrow> (Thrown x, s4)
         | None \<Rightarrow> (Returned (), success (upd_entry e (\<lambda>x. x\<lparr>ok := True\<rparr>) s4)))"

text \<open>
  A call that awaits a timer is suspended, and other calls of the proxy run meanwhile on
  the same pool. The call resumes when its timer is due, at clock time \<open>t\<close> or later, in
  the pool as the others have left it.
\<close>

definition resume :: "int \<Rightarrow> pool_state \<Rightarrow> pool_state" where
  "resume t s = s\<lparr>now := max t (now s)\<rparr>"

text \<open>
  \<open>#connect(entry)\<close>. \<open>other\<close> is what the other calls do to the pool while this one is
  suspended in \<open>await sleep(gap)\<close>. The breaker is read in \<open>#awaitBreaker\<close> only, before that
  sleep, and not again before the handshake. (Inside \<open>#awaitBreaker\<close> the loop reads the
  breaker again after each of its own sleeps, so that other calls acting during those
  sleeps are waited for as well; they are left out here.)
\<close>

definition connect_interleaved ::
  "(pool_state \<Rightarrow> pool_state) \<Rightarrow> endpoint \<Rightarrow> nat \<Rightarrow> pool_state \<Rightarrow> unit outcome \<times> pool_state"
  where
  "connect_interleaved other ep e s =
     (let s1 = awaitBreaker s;
          gap = CONNECT_GAP_MS - (now s1 - lastHS s1);
          s2 = (if gap > 0 then resume (now s1 + gap) (other s1) else s1)
      in handshake ep e s2)"

text \<open>\<open>#connect(entry)\<close> when no other call acts while it sleeps: a sequential run.\<close>

definition connect :: "endpoint \<Rightarrow> nat \<Rightarrow> pool_state \<Rightarrow> unit outcome \<times> pool_state" where
  "connect ep e s = connect_interleaved (\<lambda>s. s) ep e s"

text \<open>
  The \<open>catch\<close> block of \<open>#ready\<close> up to its \<open>throw\<close> or \<open>await\<close>: a refused connection
  counts for the breaker, and the entry is marked unhealthy.
\<close>

definition on_connect_error :: "err \<Rightarrow> nat \<Rightarrow> pool_state \<Rightarrow> pool_state" where
  "on_connect_error x e s =
     upd_entry e (\<lambda>x. x\<lparr>ok := False\<rparr>)
       (if err_code x = Some ''ECONNREFUSED'' then failure s else s)"

text \<open>
  \<open>#ready(entry)\<close>. \<open>ready_body\<close> is one iteration \<open>i\<close> of its \<open>for\<close> loop: it gives
  \<open>Some r\<close> when the iteration leaves the function (\<open>return\<close> or \<open>throw\<close>) and \<open>None\<close>
  when the loop goes on. \<open>recreate\<close> is the \<open>if(!entry.ok)\<close> block at the start of the
  iteration; the \<open>#onLow(entry,'RECREATE')\<close> call inside it does nothing, since \<open>#onLow\<close>
  only acts on an entry whose \<open>ok\<close> is set. A loop that ran out without returning or
  throwing would return \<open>undefined\<close>.
\<close>

definition recreate :: "nat \<Rightarrow> pool_state \<Rightarrow> pool_state" where
  "recreate e s =
     (if \<not> ok (pool s ! e)
      then (upd_entry e (\<lambda>x. x\<lparr>client := clients s\<rparr>) s)\<lparr>clients := clients s + 1\<rparr>
      else s)"

definition ready_body ::
  "endpoint \<Rightarrow> nat \<Rightarrow> nat \<Rightarrow> pool_state \<Rightarrow> unit outcome option \<times> pool_state" where
  "ready_body ep e i s =
     (case connect ep e (recreate e s) of
        (Returned u, s2) \<Rightarrow> (Some (Returned ()), s2)
      | (Thrown x, s2) \<Rightarrow>
          (let s4 = on_connect_error x e s2
           in if i = LOCAL_RETRIES - 1 then (Some (Thrown x), s4)
              else (None, sleep (BACKOFF_MS * (int i + 1)) s4)))"

function ready_loop ::
  "endpoint \<Rightarrow> nat \<Rightarrow> nat \<Rightarrow> pool_state \<Rightarrow> unit outcome \<times> pool_state" where
  "ready_loop ep e i s =
     (if i < LOCAL_RETRIES then
        (case ready_body ep e i s of
           (Some r, s') \<Rightarrow> (r, s')
         | (None, s') \<Rightarrow> ready_loop ep e (i + 1) s')
      else (Returned (), s))"
  by pat_completeness auto
termination
  by (relation "measure (\<lambda>(ep, e, i, s). LOCAL_RETRIES - i)") auto

definition ready :: "endpoint \<Rightarrow> nat \<Rightarrow> pool_state \<Rightarrow> unit outcome \<times> pool_state" where
  "ready ep e s = (if ok (pool s ! e) then (Returned (), s) else ready_loop ep e 0 s)"

text \<open>
  \<open>#acquire()\<close>. It returns the index of the leased entry. \<open>select_entry\<close> is the part before
  \<open>await this.#ready(entry)\<close>: the index of the entry it settles on, and the pool then. On
  an empty pool \<open>this.#next++ % this.#pool.length\<close> is \<open>NaN\<close> and the lookup gives
  \<open>undefined\<close>; the counter is incremented all the same.
\<close>

definition reap :: "int \<Rightarrow> entry \<Rightarrow> entry" where
  "reap t x = (if \<not> busy x \<and> ok x \<and> t - lastUse x > IDLE_MS then x\<lparr>ok := False\<rparr> else x)"

definition select_entry :: "pool_state \<Rightarrow> nat \<times> pool_state" where
  "select_entry s =
     (let s1 = s\<lparr>pool := map (reap (now s)) (pool s)\<rparr>;
          n = length (pool s1);
          found = (if n = 0 then None else Some (nxt s1 mod n));
          s2 = s1\<lparr>nxt := nxt s1 + 1\<rparr>
      in case found of
           None \<Rightarrow> (n, newEntry s2)
         | Some j \<Rightarrow> if n < MAX_CONN then (n, newEntry s2) else (j, s2))"

definition acquire :: "endpoint \<Rightarrow> pool_state \<Rightarrow> nat outcome \<times> pool_state" where
  "acquire ep s =
     (case select_entry s of
        (e, s3) \<Rightarrow>
          (case ready ep e s3 of
             (Thrown x, s4) \<Rightarrow> (Thrown x, s4)
           | (Returned u, s4) \<Rightarrow> (Returned e, upd_entry e (\<lambda>x. x\<lparr>busy := True\<rparr>) s4)))"

definition release :: "nat \<Rightarrow> pool_state \<Rightarrow> pool_state" where
  "release e s = upd_entry e (\<lambda>x. x\<lparr>busy := False, lastUse := now s\<rparr>) s"

text \<open>
  The function the proxy returns for a property \<open>prop\<close>. The remote operation is the
  world's: \<open>opr i\<close> is what attempt \<open>i\<close> of \<open>fn.apply(entry.client,args)\<close> (or the plain
  property read) gives. \<open>op_body\<close> is one iteration \<open>i\<close> of the \<open>for\<close> loop of \<open>op\<close>
  (\<open>Some r\<close>: the iteration leaves the function, \<open>None\<close>: the loop goes on); a loop that
  ran out would return \<open>undefined\<close>, written \<open>Returned None\<close>.
\<close>

definition op_body ::
  "endpoint \<Rightarrow> (nat \<Rightarrow> 'v outcome) \<Rightarrow> nat \<Rightarrow> nat \<Rightarrow> pool_state
     \<Rightarrow> 'v option outcome option \<times> pool_state" where
  "op_body ep opr e i s =
     (case opr i of
        Returned rv \<Rightarrow> (Some (Returned (Some rv)), release e s)
      | Thrown x \<Rightarrow>
          if \<not> transient (err_str x) \<or> i = OP_RETRIES then (Some (Thrown x), release e s)
          else
            (let s1 = upd_entry e (\<lambda>x. x\<lparr>ok := False\<rparr>) s;
                 s2 = (if err_code x = Some ''ECONNREFUSED'' then failure s1 else s1)
             in case ready ep e s2 of
                  (Thrown y, s3) \<Rightarrow> (Some (Thrown y), s3)
                | (Returned u, s3) \<Rightarrow> (None, s3)))"

function op_loop ::
  "endpoint \<Rightarrow> (nat \<Rightarrow> 'v outcome) \<Rightarrow> nat \<Rightarrow> nat \<Rightarrow> pool_state
     \<Rightarrow> 'v option outcome \<times> pool_state" where
  "op_loop ep opr e i s =
     (if i \<le> OP_RETRIES then
        (case op_body ep opr e i s of
           (Some r, s') \<Rightarrow> (r, s')
         | (None, s') \<Rightarrow> op_loop ep opr e (i + 1) s')
      else (Returned None, s))"
  by pat_completeness auto
termination
  by (relation "measure (\<lambda>(ep, opr, e, i, s). Suc OP_RETRIES - i)") auto

definition proxy_call ::
  "endpoint \<Rightarrow> (nat \<Rightarrow> 'v outcome) \<Rightarrow> pool_state \<Rightarrow> 'v option outcome \<times> pool_state" where
  "proxy_call ep opr s =
     (case acquire ep s of
        (Thrown x, s1) \<Rightarrow> (Thrown x, s1)
      | (Returned e, s1) \<Rightarrow> op_loop ep opr e 0 s1)"

text \<open>The busy flags of the pool, entry by entry: which entries are leased.\<close>

definition leases :: "pool_state \<Rightarrow> bool list" where
  "leases s = map busy (pool s)"

text \<open>
  The pool after ten proxied calls on a pool constructed at time 5000 have each leased an
  entry (every handshake succeeding) and none of them has completed yet.
\<close>

definition ten_leases :: pool_state where
  "ten_leases =
     \<lparr>pool = map (\<lambda>c. \<lparr>client = 2 * c + 1, busy = True, lastUse = 0, ok = True\<rparr>) [0..<10],
      nxt = 10, lastHS = 14000, fails = 0, breakerUntil = 0, now = 14000, clients = 20,
      handshakes = 10\<rparr>"

text \<open>Two errors of the network: a refused connection and a connection reset.\<close>

definition refused_err :: err where
  "refused_err =
     \<lparr>err_code = Some ''ECONNREFUSED'', err_str = ''Error: connect ECONNREFUSED 10.4.0.2:22''\<rparr>"

definition reset_err :: err where
  "reset_err = \<lparr>err_code = Some ''ECONNRESET'', err_str = ''Error: read ECONNRESET''\<rparr>"

text \<open>
  An error of the handshake itself that is not a refusal, and an error of an operation
  that is no symptom of the network.
\<close>

definition handshake_timeout_err :: err where
  "handshake_timeout_err =
     \<lparr>err_code = Some ''ERR_GENERIC_CLIENT'',
      err_str = ''Error: connect: Timed out while waiting for handshake''\<rparr>"

definition nofile_err :: err where
  "nofile_err =
     \<lparr>err_code = Some ''ERR_GENERIC_CLIENT'', err_str = ''Error: list: No such file /x''\<rparr>"

text \<open>
  A reconnection by \<open>#ready\<close> that starts with handshake \<open>n\<close> of the process and fails:
  its \<open>LOCAL_RETRIES\<close> handshakes \<open>n, n + 1, ...\<close> all fail, the last of them with \<open>y\<close>.
\<close>

definition reconnect_fails :: "endpoint \<Rightarrow> nat \<Rightarrow> err \<Rightarrow> bool" where
  "reconnect_fails ep n y =
     (list_all (\<lambda>m. ep (n + m) \<noteq> None) [0..<LOCAL_RETRIES] \<and>
      ep (n + (LOCAL_RETRIES - 1)) = Some y)"

text \<open>
  The failure count that \<open>k\<close> handshakes in a row, from handshake \<open>n\<close> on, make of the
  count \<open>f\<close>: a refusal adds one, a success resets it, any other failure leaves it.
\<close>

primrec count_after :: "endpoint \<Rightarrow> nat \<Rightarrow> nat \<Rightarrow> nat \<Rightarrow> nat" where
  "count_after ep f n 0 = f"
| "count_after ep f n (Suc k) =
     (case ep (n + k) of
        None \<Rightarrow> 0
      | Some x \<Rightarrow> if err_code x = Some ''ECONNREFUSED'' then count_after ep f n k + 1
                  else count_after ep f n k)"

text \<open>How long the \<open>k\<close>-th refusal in a row opens the breaker.\<close>

definition open_duration :: "nat \<Rightarrow> int" where
  "open_duration k = BREAKER_BASE_MS * 2 ^ min (k - 1) 5"

text \<open>An endpoint that is down: it refuses every connection.\<close>

definition refusing :: endpoint where
  "refusing = (\<lambda>n. Some refused_err)"

text \<open>
  Two proxied calls on a pool constructed at time 5000, the endpoint being down. The first
  call selects entry 0 and starts handshake 0 at time 5000; \<open>first_call_pending\<close> is the
  pool while this handshake is pending (\<open>#connect\<close> changes nothing between the start of a
  handshake and its rejection). The second call is made at time 5050 and selects entry 1;
  \<open>connect_pending\<close> is the pool when it enters \<open>#connect\<close>. At time 5100 the pending
  handshake is refused and the first call runs the \<open>catch\<close> block of \<open>#ready\<close>;
  \<open>refused_meanwhile\<close> is what this does to the pool, while the second call sleeps.
\<close>

definition first_call_pending :: pool_state where
  "first_call_pending =
     (case select_entry (new_pool 5000) of (e, s) \<Rightarrow> snd (connect refusing e (recreate e s)))"

definition connect_pending :: pool_state where
  "connect_pending =
     (case select_entry (resume 5050 first_call_pending) of (e, s) \<Rightarrow> recreate e s)"

definition refused_meanwhile :: "pool_state \<Rightarrow> pool_state" where
  "refused_meanwhile s = on_connect_error refused_err 0 (resume 5100 s)"

section \<open>excelAutoKNFO.js: the scheduler\<close>

text \<open>
  The configuration read from the environment. The defaults are those of the source
  (\<open>CTX_LIST\<close> defaults to \<open>'CAN'\<close>).
\<close>

record config =
  PARALLEL_LIMIT :: nat
  CTXS :: "string list"
  TH_MB :: rat
  MAX_FAILURES :: nat

definition default_config :: config where
  "default_config = \<lparr>PARALLEL_LIMIT = 5, CTXS = [''CAN''], TH_MB = 20, MAX_FAILURES = 3\<rparr>"

definition PATTERNS :: "string list" where
  "PATTERNS =
     [''MB51'', ''MB5B'', ''ME5A'', ''S_P99_41000062'', ''ME2L'', ''ZMMR_SQVI_BUS_RAPIDA'',
      ''ZMMREPO'', ''MRO_IO'', ''KOB1'', ''CJI3'', ''KSB1'', ''ZFIR_STATSLOAD'', ''CN41N'',
      ''ZRPT_PS_PROJECT'', ''IW49N'', ''LEK2DAT_FORECAST'', ''LEK2DAT_STRUCTURE_EE'',
      ''LEK2DAT_STRUCTURE_CC'', ''LEK2DAT_STRUCTURE_CCEE'', ''LEK2DAT_STRUCTURE_ACC'',
      ''PRESU'', ''PATRI'']"

definition keyOf :: "string \<Rightarrow> string \<Rightarrow> string" where
  "keyOf c f = c @ '':'' @ f"

text \<open>A queue item \<open>{name, sizeMB}\<close> and a picked job \<open>{ctx, file, large}\<close> (\<open>file\<close> is \<open>pfile\<close>).\<close>

record item =
  name :: string
  sizeMB :: rat

record pick =
  ctx :: string
  pfile :: string
  large :: bool

datatype phase = IDLE | BOOTED | RESCANNED

text \<open>
  The module state. A JavaScript \<open>Map\<close> that is enumerated (\<open>queues\<close>, \<open>flags\<close>) is an
  association list in insertion order; \<open>failedFiles\<close>, only read and written by key, is a
  map. The \<open>Set\<close> \<open>inFlight\<close>, whose size is read, is a list without duplicates in
  insertion order; \<open>processedOK\<close>, only tested for membership, is a set. \<open>spawned\<close> records
  the effect of \<open>runWorker(ctx, file)\<close>: the worker threads created so far.
\<close>

type_synonym queue_map = "(string \<times> item list) list"

record sched =
  queues :: queue_map
  inFlight :: "string list"
  processedOK :: "string set"
  flags :: "(string \<times> bool) list"
  failedFiles :: "string \<rightharpoonup> nat"
  phase :: phase
  ticking :: bool
  spawned :: "(string \<times> string) list"

text \<open>\<open>queues.get(ctx) || []\<close>.\<close>

definition qget :: "queue_map \<Rightarrow> string \<Rightarrow> item list" where
  "qget qs c = (case map_of qs c of None \<Rightarrow> [] | Some q \<Rightarrow> q)"

definition queuesEmpty :: "queue_map \<Rightarrow> bool" where
  "queuesEmpty qs = (\<not> list_ex (\<lambda>(c, arr). arr \<noteq> []) qs)"

subsection \<open>Scanning\<close>

text \<open>
  An entry of a remote directory listing: \<open>type\<close>, \<open>name\<close> and \<open>size\<close> (in bytes). The
  three lists that one \<open>scanCtx\<close> works on: \<open>xlsList\<close>, \<open>knfoList\<close> and what the recursive
  listing inside \<open>listAllMetaFiles\<close> gave.
\<close>

record file_info =
  ftype :: string
  fname :: string
  fsize :: nat

record listing =
  xlsList :: "file_info list"
  knfoList :: "file_info list"
  metaFiles :: "file_info list"

text \<open>
  The remote store of one context at the time of a scan: the files that are in its Excel
  and KNFO directories and under its META directory, and for each of the three \<open>list\<close>
  calls of the scan whether it fails (it rejects or runs into \<open>SFTP_TIMEOUT_MS\<close>).
\<close>

record store =
  excel_files :: "file_info list"
  knfo_files :: "file_info list"
  meta_files :: "file_info list"
  excel_list_fails :: bool
  knfo_list_fails :: bool
  meta_list_fails :: bool

text \<open>
  The three \<open>await withTimeout(sftp.list(...), ...).catch(() => [])\<close> of a scan: a call
  that fails gives the empty list.
\<close>

definition read_listings :: "store \<Rightarrow> listing" where
  "read_listings st =
     \<lparr>xlsList = (if excel_list_fails st then [] else excel_files st),
      knfoList = (if knfo_list_fails st then [] else knfo_files st),
      metaFiles = (if meta_list_fails st then [] else meta_files st)\<rparr>"

text \<open>What is on the store, whether the scan gets to see it or not.\<close>

definition stored :: "store \<Rightarrow> listing" where
  "stored st = \<lparr>xlsList = excel_files st, knfoList = knfo_files st, metaFiles = meta_files st\<rparr>"

text \<open>
  \<open>String.prototype.toLowerCase\<close> is a function of the runtime, with the case tables of
  Unicode behind it. The functions of the scan take it as the parameter \<open>lc\<close>.
\<close>

type_synonym lowering = "string \<Rightarrow> string"

text \<open>\<open>path.basename\<close> of a path that does not end in a slash.\<close>

definition basename :: "string \<Rightarrow> string" where
  "basename p = rev (takeWhile (\<lambda>c. c \<noteq> CHR ''/'') (rev p))"

definition listAllMetaFiles :: "lowering \<Rightarrow> file_info list \<Rightarrow> string list" where
  "listAllMetaFiles lc files =
     map lc
       (filter (\<lambda>n. n \<noteq> [])
          (map (\<lambda>f. basename (fname f))
             (filter (\<lambda>f. ftype f = ''-'' \<and> endsWith (lc (fname f)) ''.meta'') files)))"

text \<open>
  \<open>name.slice(0, -5).toLowerCase()\<close>. It is computed for names that passed the \<open>.xlsx\<close>
  test only; their last five characters are ASCII, one byte each.
\<close>

definition baseLower :: "lowering \<Rightarrow> string \<Rightarrow> string" where
  "baseLower lc n = lc (take (length n - 5) n)"

text \<open>
  \<open>knfoSet.has(`${baseLower}.knfo`)\<close> and \<open>metaSet.has(`${baseLower}.meta`)\<close>, over the
  lists \<open>l\<close>.
\<close>

definition hasKnfo :: "lowering \<Rightarrow> listing \<Rightarrow> string \<Rightarrow> bool" where
  "hasKnfo lc l n = (baseLower lc n @ ''.knfo'' \<in> set (map (\<lambda>f. lc (fname f)) (knfoList l)))"

definition hasMeta :: "lowering \<Rightarrow> listing \<Rightarrow> string \<Rightarrow> bool" where
  "hasMeta lc l n =
     (baseLower lc n @ ''.meta'' \<in> set (map lc (listAllMetaFiles lc (metaFiles l))))"

text \<open>
  The entries of the Excel listing that the first pass of \<open>scanCtx\<close> looks at: regular
  files named \<open>*.xlsx\<close> whose name contains one of the \<open>PATTERNS\<close>.
\<close>

definition candidate :: "lowering \<Rightarrow> file_info \<Rightarrow> bool" where
  "candidate lc f =
     (ftype f = ''-'' \<and> endsWith (lc (fname f)) ''.xlsx'' \<and>
      list_ex (\<lambda>p. str_includes (fname f) p) PATTERNS)"

text \<open>
  The first pass of \<open>scanCtx\<close> decides for each entry whether it is pushed. The second
  pass only counts KNFO files without an Excel file for the log and pushes nothing.
\<close>

definition enqueued ::
  "lowering \<Rightarrow> string \<Rightarrow> listing \<Rightarrow> string set \<Rightarrow> file_info \<Rightarrow> bool" where
  "enqueued lc c l processed f =
     (candidate lc f \<and>
      \<not> (hasKnfo lc l (fname f) \<and> hasMeta lc l (fname f)) \<and>
      \<not> (keyOf c (fname f) \<in> processed \<and>
         \<not> (hasKnfo lc l (fname f) \<and> \<not> hasMeta lc l (fname f))))"

text \<open>
  \<open>scanCtx(ctx)\<close> on the store \<open>st\<close> of the context, given the \<open>processedOK\<close> set: it reads
  its three lists and works on what it got. \<open>Array.prototype.sort\<close> is stable, and so is
  \<open>sort_key\<close>; the comparator \<open>b.sizeMB - a.sizeMB\<close> orders by descending size.
\<close>

definition scanCtx :: "lowering \<Rightarrow> string \<Rightarrow> store \<Rightarrow> string set \<Rightarrow> item list" where
  "scanCtx lc c st processed =
     (let l = read_listings st
      in sort_key (\<lambda>i. - sizeMB i)
           (map (\<lambda>f. \<lparr>name = fname f, sizeMB = of_nat (fsize f) / (1024 * 1024)\<rparr>)
              (filter (enqueued lc c l processed) (xlsList l))))"

text \<open>
  The world of one tick: the remote store of each context (\<open>Thrown\<close> when
  \<open>getSftpShared()\<close> rejects, which \<open>scanCtx\<close> does not catch); how the \<open>n\<close>-th worker
  thread of the process ends, as seen through \<open>withTimeout(runWorker(ctx, file), ...)\<close>:
  it resolves, or it rejects with the worker's error or with \<open>TIMEOUT runWorker(...)\<close>;
  and the runtime's \<open>String.prototype.toLowerCase\<close>.
\<close>

record world =
  remote :: "string \<Rightarrow> store outcome"
  worker :: "nat \<Rightarrow> unit outcome"
  toLowerCase :: lowering

text \<open>The first loop of \<open>scanAll\<close>: \<open>tmpQueues\<close>, or the error of the first scan that throws.\<close>

fun scan_ctxs :: "world \<Rightarrow> string set \<Rightarrow> string list \<Rightarrow> queue_map \<Rightarrow> queue_map outcome" where
  "scan_ctxs w processed [] tmp = Returned tmp"
| "scan_ctxs w processed (c # cs) tmp =
     (case remote w c of
        Thrown x \<Rightarrow> Thrown x
      | Returned st \<Rightarrow>
          scan_ctxs w processed cs (AList.update c (scanCtx (toLowerCase w) c st processed) tmp))"

definition scanAll :: "config \<Rightarrow> world \<Rightarrow> sched \<Rightarrow> unit outcome \<times> sched" where
  "scanAll cfg w s =
     (case scan_ctxs w (processedOK s) (CTXS cfg) [] of
        Thrown x \<Rightarrow> (Thrown x, s)
      | Returned tmp \<Rightarrow>
          (Returned (),
           if length (inFlight s) = 0
           then s\<lparr>queues := foldl (\<lambda>qs c. AList.update c (qget tmp c) qs) [] (CTXS cfg)\<rparr>
           else s))"

subsection \<open>Picking a batch\<close>

text \<open>The first loop of \<open>pickBatch\<close>: the exclusive large job, if a queue head is large.\<close>

fun pick_large :: "config \<Rightarrow> string list \<Rightarrow> queue_map \<Rightarrow> (pick list \<times> queue_map) option" where
  "pick_large cfg [] qs = None"
| "pick_large cfg (c # cs) qs =
     (case qget qs c of
        [] \<Rightarrow> pick_large cfg cs qs
      | it # q \<Rightarrow>
          if sizeMB it \<ge> TH_MB cfg
          then Some ([\<lparr>ctx = c, pfile = name it, large = True\<rparr>], AList.update c q qs)
          else pick_large cfg cs qs)"

text \<open>The \<open>while\<close> loop of the second part, on the queue \<open>q\<close> of context \<open>c\<close>.\<close>

fun take_small :: "config \<Rightarrow> nat \<Rightarrow> string \<Rightarrow> item list \<Rightarrow> pick list \<Rightarrow> item list \<times> pick list" where
  "take_small cfg mx c [] picks = ([], picks)"
| "take_small cfg mx c (it # q) picks =
     (if length picks < mx then
        (if sizeMB it \<ge> TH_MB cfg then (it # q, picks)
         else take_small cfg mx c q (picks @ [\<lparr>ctx = c, pfile = name it, large = False\<rparr>]))
      else (it # q, picks))"

text \<open>The \<open>for\<close> loop of the second part.\<close>

fun pick_small :: "config \<Rightarrow> nat \<Rightarrow> string list \<Rightarrow> queue_map \<Rightarrow> pick list \<Rightarrow> pick list \<times> queue_map" where
  "pick_small cfg mx [] qs picks = (picks, qs)"
| "pick_small cfg mx (c # cs) qs picks =
     (case take_small cfg mx c (qget qs c) picks of
        (q, picks') \<Rightarrow>
          if length picks' = mx then (picks', AList.update c q qs)
          else pick_small cfg mx cs (AList.update c q qs) picks')"

definition pickBatch :: "config \<Rightarrow> nat \<Rightarrow> queue_map \<Rightarrow> pick list \<times> queue_map" where
  "pickBatch cfg mx qs =
     (case pick_large cfg (CTXS cfg) qs of
        Some r \<Rightarrow> r
      | None \<Rightarrow> pick_small cfg mx (CTXS cfg) qs [])"

text \<open>The head of the queue of source \<open>c\<close> is at or above the large threshold.\<close>

definition large_head :: "config \<Rightarrow> queue_map \<Rightarrow> string \<Rightarrow> bool" where
  "large_head cfg qs c = (case qget qs c of [] \<Rightarrow> False | it # q \<Rightarrow> sizeMB it \<ge> TH_MB cfg)"

text \<open>
  Draining the sources in order, in words: each source, in configured order, contributes
  the small jobs that lead its queue, up to its first large job, and the batch is the
  first \<open>mx\<close> jobs of these runs put end to end.
\<close>

definition small_pick :: "string \<Rightarrow> item \<Rightarrow> pick" where
  "small_pick c it = \<lparr>ctx = c, pfile = name it, large = False\<rparr>"

definition small_run :: "config \<Rightarrow> queue_map \<Rightarrow> string \<Rightarrow> pick list" where
  "small_run cfg qs c = map (small_pick c) (takeWhile (\<lambda>it. \<not> sizeMB it \<ge> TH_MB cfg) (qget qs c))"

definition drain_in_order :: "config \<Rightarrow> nat \<Rightarrow> queue_map \<Rightarrow> pick list" where
  "drain_in_order cfg mx qs = take mx (concat (map (small_run cfg qs) (CTXS cfg)))"

subsection \<open>Running a batch\<close>

text \<open>\<open>failedFiles.get(k) || 0\<close>.\<close>

definition failureCount :: "sched \<Rightarrow> string \<Rightarrow> nat" where
  "failureCount s k = (case failedFiles s k of None \<Rightarrow> 0 | Some n \<Rightarrow> n)"

text \<open>The \<open>finally\<close> block of a job: \<open>inFlight.delete(k); flags.delete(k)\<close>.\<close>

definition job_finally :: "string \<Rightarrow> sched \<Rightarrow> sched" where
  "job_finally k s = s\<lparr>inFlight := removeAll k (inFlight s), flags := AList.delete k (flags s)\<rparr>"

text \<open>
  The part of a job's \<open>async\<close> function that runs at once, inside \<open>batch.map\<close>, up to its
  \<open>await\<close>: the job is put in flight and, unless it is skipped for its failures, its
  worker is created. The result carries the number of the worker the job waits for.
\<close>

definition start_job :: "config \<Rightarrow> pick \<Rightarrow> sched \<Rightarrow> (pick \<times> nat) option \<times> sched" where
  "start_job cfg p s =
     (let k = keyOf (ctx p) (pfile p);
          s1 = s\<lparr>inFlight := (if k \<in> set (inFlight s) then inFlight s else inFlight s @ [k]),
                 flags := AList.update k (large p) (flags s)\<rparr>
      in if failureCount s1 k \<ge> MAX_FAILURES cfg
         then (None, job_finally k (s1\<lparr>processedOK := insert k (processedOK s1)\<rparr>))
         else (Some (p, length (spawned s1)), s1\<lparr>spawned := spawned s1 @ [(ctx p, pfile p)]\<rparr>))"

text \<open>The rest of the job's function, once its worker has ended.\<close>

definition finish_job :: "config \<Rightarrow> world \<Rightarrow> pick \<times> nat \<Rightarrow> sched \<Rightarrow> sched" where
  "finish_job cfg w j s =
     (let k = keyOf (ctx (fst j)) (pfile (fst j))
      in case worker w (snd j) of
           Returned u \<Rightarrow>
             job_finally k
               (s\<lparr>processedOK := insert k (processedOK s), failedFiles := (failedFiles s)(k := None)\<rparr>)
         | Thrown x \<Rightarrow>
             (let n = failureCount s k + 1;
                  s1 = s\<lparr>failedFiles := (failedFiles s)(k \<mapsto> n)\<rparr>
              in job_finally k
                   (if str_includes (err_str x) ''TIMEOUT'' \<and> n \<ge> MAX_FAILURES cfg
                    then s1\<lparr>processedOK := insert k (processedOK s1)\<rparr>
                    else s1)))"

fun start_jobs :: "config \<Rightarrow> pick list \<Rightarrow> sched \<Rightarrow> (pick \<times> nat) list \<times> sched" where
  "start_jobs cfg [] s = ([], s)"
| "start_jobs cfg (p # ps) s =
     (case start_job cfg p s of
        (r, s1) \<Rightarrow>
          (case start_jobs cfg ps s1 of
             (rs, s2) \<Rightarrow> ((case r of None \<Rightarrow> rs | Some j \<Rightarrow> j # rs), s2)))"

text \<open>
  \<open>processBatch(batch)\<close>: every job is started, then \<open>Promise.allSettled\<close> waits for all
  of them. Jobs that end change the state under their own key only; they are taken in
  batch order. Each job settles within its own timeout (ten minutes at most), so the
  thirty-minute race in \<open>tick\<close> is always won by \<open>processBatch\<close>.
\<close>

definition processBatch :: "config \<Rightarrow> world \<Rightarrow> pick list \<Rightarrow> sched \<Rightarrow> sched" where
  "processBatch cfg w batch s =
     (case start_jobs cfg batch s of (js, s1) \<Rightarrow> foldl (\<lambda>a j. finish_job cfg w j a) s1 js)"

text \<open>The key of a picked job, and the workers created so far for the jobs of key \<open>k\<close>.\<close>

definition job_key :: "pick \<Rightarrow> string" where
  "job_key p = keyOf (ctx p) (pfile p)"

definition runs_of :: "string \<Rightarrow> sched \<Rightarrow> (string \<times> string) list" where
  "runs_of k s = filter (\<lambda>(c, f). keyOf c f = k) (spawned s)"

subsection \<open>The tick\<close>

text \<open>The phase-controlled scan at the start of a tick.\<close>

definition scan_phase :: "config \<Rightarrow> world \<Rightarrow> sched \<Rightarrow> unit outcome \<times> sched" where
  "scan_phase cfg w s =
     (if queuesEmpty (queues s) \<and> length (inFlight s) = 0 then
        (case phase s of
           IDLE \<Rightarrow>
             (case scanAll cfg w s of
                (Thrown x, s1) \<Rightarrow> (Thrown x, s1)
              | (Returned u, s1) \<Rightarrow> (Returned (), s1\<lparr>phase := BOOTED\<rparr>))
         | BOOTED \<Rightarrow>
             (case scanAll cfg w s of
                (Thrown x, s1) \<Rightarrow> (Thrown x, s1)
              | (Returned u, s1) \<Rightarrow> (Returned (), s1\<lparr>phase := RESCANNED\<rparr>))
         | RESCANNED \<Rightarrow> (Returned (), s\<lparr>phase := IDLE\<rparr>))
      else (Returned (), s))"

text \<open>The \<open>try\<close> block of \<open>tick\<close>.\<close>

definition tick_body :: "config \<Rightarrow> world \<Rightarrow> sched \<Rightarrow> unit outcome \<times> sched" where
  "tick_body cfg w s =
     (if list_ex snd (flags s) then (Returned (), s)
      else
        (case scan_phase cfg w s of
           (Thrown x, s1) \<Rightarrow> (Thrown x, s1)
         | (Returned u, s1) \<Rightarrow>
             (let avail = PARALLEL_LIMIT cfg - length (inFlight s1)
              in if avail \<le> 0 then (Returned (), s1)
                 else
                   (case pickBatch cfg avail (queues s1) of
                      (batch, qs) \<Rightarrow>
                        if batch = [] then (Returned (), s1\<lparr>queues := qs\<rparr>)
                        else (Returned (), processBatch cfg w batch (s1\<lparr>queues := qs\<rparr>))))))"

text \<open>
  \<open>tick()\<close>: the re-entrancy guard, the \<open>try\<close> block, the \<open>catch\<close> that logs the error
  and the \<open>finally\<close> that releases the flag.
\<close>

definition tick :: "config \<Rightarrow> world \<Rightarrow> sched \<Rightarrow> sched" where
  "tick cfg w s =
     (if ticking s then s
      else (case tick_body cfg w (s\<lparr>ticking := True\<rparr>) of (r, s1) \<Rightarrow> s1\<lparr>ticking := False\<rparr>))"

text \<open>The module state after \<open>start()\<close>: every context has an empty queue.\<close>

definition start :: "config \<Rightarrow> sched" where
  "start cfg =
     \<lparr>queues = foldl (\<lambda>qs c. AList.update c [] qs) [] (CTXS cfg), inFlight = [],
      processedOK = {}, flags = [], failedFiles = Map.empty, phase = IDLE, ticking = False,
      spawned = []\<rparr>"


subsection \<open>Sample configurations, listings and worlds\<close>


text \<open>
  The files of a remote store with three Excel files: one without artifacts, one with
  its KNFO only and one with both its KNFO and its META; the store at a time when every
  listing succeeds; two sources that both have this store.
\<close>

definition sample_listing :: listing where
  "sample_listing =
     \<lparr>xlsList =
        [\<lparr>ftype = ''-'', fname = ''MB51_a.xlsx'', fsize = 3145728\<rparr>,
         \<lparr>ftype = ''-'', fname = ''KOB1_B.XLSX'', fsize = 31457280\<rparr>,
         \<lparr>ftype = ''-'', fname = ''CJI3_done.xlsx'', fsize = 5\<rparr>],
      knfoList =
        [\<lparr>ftype = ''-'', fname = ''kob1_b.knfo'', fsize = 10\<rparr>,
         \<lparr>ftype = ''-'', fname = ''CJI3_done.knfo'', fsize = 10\<rparr>],
      metaFiles = [\<lparr>ftype = ''-'', fname = ''sub/CJI3_done.meta'', fsize = 10\<rparr>]\<rparr>"

definition sample_store :: store where
  "sample_store =
     \<lparr>excel_files = xlsList sample_listing, knfo_files = knfoList sample_listing,
      meta_files = metaFiles sample_listing, excel_list_fails = False, knfo_list_fails = False,
      meta_list_fails = False\<rparr>"

definition two_sources :: config where
  "two_sources = default_config\<lparr>CTXS := [''CAN'', ''CAS'']\<rparr>"

definition sample_world :: world where
  "sample_world =
     \<lparr>remote = (\<lambda>c. Returned sample_store), worker = (\<lambda>n. Returned ()),
      toLowerCase = ascii_lower\<rparr>"

text \<open>The same store at a time when the listing of the KNFO directory fails.\<close>

definition knfo_unlisted :: store where
  "knfo_unlisted = sample_store\<lparr>knfo_list_fails := True\<rparr>"

text \<open>Two sources with small jobs only: two for CAN and one for CAS.\<close>

definition alternation_example :: queue_map where
  "alternation_example =
     [(''CAN'', [\<lparr>name = ''a.xlsx'', sizeMB = 2\<rparr>, \<lparr>name = ''b.xlsx'', sizeMB = 1\<rparr>]),
      (''CAS'', [\<lparr>name = ''c.xlsx'', sizeMB = 2\<rparr>])]"

text \<open>
  The queue \<open>[100MB, 2MB, 3MB]\<close> of the one default source, and the state a tick is in
  once it has picked its batch from it and started the jobs of the batch.
\<close>

definition exclusive_example :: sched where
  "exclusive_example =
     (start default_config)
       \<lparr>queues := [(''CAN'', [\<lparr>name = ''big.xlsx'', sizeMB = 100\<rparr>, \<lparr>name = ''two.xlsx'', sizeMB = 2\<rparr>,
                              \<lparr>name = ''three.xlsx'', sizeMB = 3\<rparr>])]\<rparr>"

definition large_in_flight :: sched where
  "large_in_flight =
     snd (start_jobs default_config (fst (pickBatch default_config 5 (queues exclusive_example)))
            (exclusive_example\<lparr>queues := snd (pickBatch default_config 5 (queues exclusive_example))\<rparr>))"

text \<open>
  A world whose workers all exit with code 1, a job, and the state after three batches
  that each ran this job in that world.
\<close>

definition failing_world :: world where
  "failing_world =
     \<lparr>remote = (\<lambda>c. Returned \<lparr>excel_files = [], knfo_files = [], meta_files = [],
                              excel_list_fails = False, knfo_list_fails = False,
                              meta_list_fails = False\<rparr>),
      worker = (\<lambda>n. Thrown \<lparr>err_code = None, err_str = ''worker exit 1''\<rparr>),
      toLowerCase = ascii_lower\<rparr>"

definition poison_job :: pick where
  "poison_job = \<lparr>ctx = ''CAN'', pfile = ''a.xlsx'', large = False\<rparr>"

definition thrice_failed :: sched where
  "thrice_failed =
     processBatch default_config failing_world [poison_job]
       (processBatch default_config failing_world [poison_job]
          (processBatch default_config failing_world [poison_job] (start default_config)))"

declare awaitBreaker.simps [simp del] ready_loop.simps [simp del] op_loop.simps [simp del]

section \<open>Properties of the connection pool\<close>

lemma awaitBreaker_eq:
  "awaitBreaker s = (if breakerUntil s > now s then s\<lparr>now := breakerUntil s\<rparr> else s)"
  by (subst awaitBreaker.simps, subst awaitBreaker.simps) (simp add: sleep_def)

lemma map_update_same:
  "(\<And>x. f (g x) = f x) \<Longrightarrow> map f (xs[i := g (xs ! i)]) = map f xs"
  by (cases "i < length xs") (auto simp: list_eq_iff_nth_eq nth_list_update)

lemma ready_body_unfold:
  "ready_body ep e i s =
     (let s1 = (if \<not> ok (pool s ! e)
                then (upd_entry e (\<lambda>x. x\<lparr>client := clients s\<rparr>) s)\<lparr>clients := clients s + 1\<rparr>
                else s)
      in case connect ep e s1 of
           (Returned u, s2) \<Rightarrow> (Some (Returned ()), s2)
         | (Thrown x, s2) \<Rightarrow>
             (let s4 = on_connect_error x e s2
              in if i = LOCAL_RETRIES - 1 then (Some (Thrown x), s4)
                 else (None, sleep (BACKOFF_MS * (int i + 1)) s4)))"
  by (simp add: ready_body_def recreate_def Let_def)

lemma connect_shape:
  assumes "connect ep e s = (r, s')"
  shows "leases s' = leases s"
    and "length (pool s') = length (pool s)"
    and "handshakes s' = handshakes s + 1"
    and "clients s' = clients s \<and> nxt s' = nxt s"
    and "breakerUntil s \<le> lastHS s'"
    and "r = Returned u \<Longrightarrow> ep (handshakes s) = None \<and> fails s' = 0 \<and> breakerUntil s' = 0"
    and "r = Returned u \<Longrightarrow> e < length (pool s) \<Longrightarrow> ok (pool s' ! e) \<and> client (pool s' ! e) = client (pool s ! e)"
    and "r = Thrown x \<Longrightarrow> ep (handshakes s) = Some x"
  using assms
  by (auto simp: connect_def connect_interleaved_def handshake_def resume_def awaitBreaker_eq Let_def
      success_def upd_entry_def leases_def map_update_same CONNECT_GAP_MS_def
      split: option.splits if_splits)

lemma ready_body_shape:
  assumes "ready_body ep e i s = (r, s')" and "e < length (pool s)"
  shows "leases s' = leases s"
    and "length (pool s') = length (pool s)"
    and "handshakes s' = handshakes s + 1"
    and "clients s \<le> clients s' \<and> nxt s' = nxt s"
    and "r = Some (Returned u) \<Longrightarrow>
           ok (pool s' ! e) \<and> ep (handshakes s) = None \<and> fails s' = 0 \<and> breakerUntil s' = 0 \<and>
           (\<not> ok (pool s ! e) \<longrightarrow> clients s \<le> client (pool s' ! e) \<and> client (pool s' ! e) < clients s')"
    and "r = Some (Thrown x) \<Longrightarrow> ep (handshakes s) = Some x"
    and "r \<noteq> Some (Returned ()) \<Longrightarrow> \<not> ok (pool s' ! e)"
proof -
  define s1 where "s1 = (if \<not> ok (pool s ! e)
                then (upd_entry e (\<lambda>x. x\<lparr>client := clients s\<rparr>) s)\<lparr>clients := clients s + 1\<rparr>
                else s)"
  obtain rc s2 where c: "connect ep e s1 = (rc, s2)" by force
  note cs = connect_shape[OF c]
  have s1: "leases s1 = leases s" "length (pool s1) = length (pool s)" "handshakes s1 = handshakes s"
    "clients s \<le> clients s1 \<and> nxt s1 = nxt s" "\<not> ok (pool s ! e) \<Longrightarrow> client (pool s1 ! e) = clients s \<and> clients s1 = clients s + 1"
    using assms(2) by (auto simp: s1_def upd_entry_def leases_def map_update_same)
  have r: "(r, s') = (case (rc, s2) of
           (Returned u, s2) \<Rightarrow> (Some (Returned ()), s2)
         | (Thrown x, s2) \<Rightarrow>
             (let s4 = on_connect_error x e s2
              in if i = LOCAL_RETRIES - 1 then (Some (Thrown x), s4)
                 else (None, sleep (BACKOFF_MS * (int i + 1)) s4)))"
    using assms(1) c unfolding ready_body_unfold s1_def[symmetric] Let_def by simp
  show "leases s' = leases s" "length (pool s') = length (pool s)" "handshakes s' = handshakes s + 1"
    "clients s \<le> clients s' \<and> nxt s' = nxt s"
    using r cs(1-4) s1(1-4)
    by (auto simp: Let_def on_connect_error_def failure_def sleep_def upd_entry_def leases_def
        map_update_same split: outcome.splits if_splits)
  show "r = Some (Returned u) \<Longrightarrow>
           ok (pool s' ! e) \<and> ep (handshakes s) = None \<and> fails s' = 0 \<and> breakerUntil s' = 0 \<and>
           (\<not> ok (pool s ! e) \<longrightarrow> clients s \<le> client (pool s' ! e) \<and> client (pool s' ! e) < clients s')"
    using r cs(4,6,7) s1 assms(2)
    by (auto simp: Let_def split: outcome.splits if_splits)
  show "r = Some (Thrown x) \<Longrightarrow> ep (handshakes s) = Some x"
    using r cs(8) s1(3) by (auto simp: Let_def split: outcome.splits if_splits)
  show "r \<noteq> Some (Returned ()) \<Longrightarrow> \<not> ok (pool s' ! e)"
    using r cs(2) s1(2) assms(2)
    by (auto simp: Let_def on_connect_error_def failure_def sleep_def upd_entry_def
        split: outcome.splits if_splits)
qed

lemma ready_loop_shape:
  assumes "ready_loop ep e i s = (r, s')" and "e < length (pool s)" and "i < LOCAL_RETRIES"
  shows "leases s' = leases s \<and> length (pool s') = length (pool s) \<and>
         handshakes s < handshakes s' \<and> clients s \<le> clients s' \<and> nxt s' = nxt s \<and>
         (r = Returned () \<longrightarrow>
            ok (pool s' ! e) \<and> ep (handshakes s' - 1) = None \<and> fails s' = 0 \<and> breakerUntil s' = 0 \<and>
            (\<not> ok (pool s ! e) \<longrightarrow> clients s \<le> client (pool s' ! e))) \<and>
         (\<forall>x. r = Thrown x \<longrightarrow> (\<exists>n\<ge>handshakes s. ep n = Some x) \<and> \<not> ok (pool s' ! e))"
  using assms
proof (induction ep e i s arbitrary: r s' rule: ready_loop.induct)
  case (1 ep e i s)
  obtain b s1 where b: "ready_body ep e i s = (b, s1)" by force
  note bs = ready_body_shape[OF b "1.prems"(2)]
  show ?case
  proof (cases b)
    case None
    then have rec: "ready_loop ep e (i + 1) s1 = (r, s')"
      using "1.prems"(1,3) b by (subst (asm) ready_loop.simps) simp
    have "i \<noteq> LOCAL_RETRIES - 1"
      using b None by (auto simp: ready_body_unfold Let_def split: prod.splits outcome.splits if_splits)
    then have lt: "i + 1 < LOCAL_RETRIES" using "1.prems"(3) by simp
    have "e < length (pool s1)" using bs(2) "1.prems"(2) by simp
    from "1.IH"[OF "1.prems"(3) b[symmetric] None rec this lt] bs(1-4) bs(7) None
    show ?thesis by (auto intro: le_trans) (metis Suc_leD)
  next
    case (Some o1)
    then have eq: "r = o1" "s' = s1"
      using "1.prems"(1,3) b by (subst (asm) ready_loop.simps, simp)+
    show ?thesis
    proof (cases o1)
      case (Returned u)
      with bs(1-4) bs(5)[of u] Some eq show ?thesis by auto
    next
      case (Thrown x)
      with bs(1-4) bs(6)[of x] bs(7) Some eq show ?thesis by auto
    qed
  qed
qed

lemma ready_shape:
  assumes "ready ep e s = (r, s')" and "e < length (pool s)"
  shows "leases s' = leases s \<and> length (pool s') = length (pool s) \<and>
         handshakes s \<le> handshakes s' \<and> clients s \<le> clients s' \<and> nxt s' = nxt s \<and>
         (r = Returned () \<longrightarrow> ok (pool s' ! e)) \<and>
         (\<forall>x. r = Thrown x \<longrightarrow> (\<exists>n\<ge>handshakes s. ep n = Some x) \<and> \<not> ok (pool s' ! e)) \<and>
         (\<not> ok (pool s ! e) \<and> r = Returned () \<longrightarrow>
            handshakes s < handshakes s' \<and> ep (handshakes s' - 1) = None \<and>
            clients s \<le> client (pool s' ! e) \<and> fails s' = 0 \<and> breakerUntil s' = 0)"
proof (cases "ok (pool s ! e)")
  case True
  then show ?thesis using assms by (auto simp: ready_def)
next
  case False
  then have "ready_loop ep e 0 s = (r, s')" using assms by (simp add: ready_def)
  from ready_loop_shape[OF this assms(2)] False show ?thesis
    by (auto simp: LOCAL_RETRIES_def)
qed

text \<open>
  What a handshake gives decides the iteration of \<open>#ready\<close>; \<open>#ready\<close> throws exactly
  when its \<open>LOCAL_RETRIES\<close> handshakes all fail, and then with the error of the last one.
\<close>

lemma connect_result:
  "fst (connect ep e s) = (case ep (handshakes s) of None \<Rightarrow> Returned () | Some x \<Rightarrow> Thrown x)"
  by (auto simp: connect_def connect_interleaved_def handshake_def resume_def awaitBreaker_eq Let_def
      split: option.splits)

lemma ready_body_result:
  "fst (ready_body ep e i s) =
     (case ep (handshakes s) of
        None \<Rightarrow> Some (Returned ())
      | Some x \<Rightarrow> if i = LOCAL_RETRIES - 1 then Some (Thrown x) else None)"
proof -
  let ?s1 = "(if \<not> ok (pool s ! e)
                then (upd_entry e (\<lambda>x. x\<lparr>client := clients s\<rparr>) s)\<lparr>clients := clients s + 1\<rparr>
                else s)"
  have h: "handshakes ?s1 = handshakes s" by (simp add: upd_entry_def)
  obtain rc s2 where c: "connect ep e ?s1 = (rc, s2)" by force
  have "rc = (case ep (handshakes s) of None \<Rightarrow> Returned () | Some x \<Rightarrow> Thrown x)"
    using connect_result[of ep e ?s1] c h by simp
  then show ?thesis
    unfolding ready_body_unfold Let_def c
    by (auto split: option.splits)
qed

lemma ready_loop_throws:
  assumes "ready_loop ep e i s = (Thrown x, s')" and "e < length (pool s)" and "i < LOCAL_RETRIES"
  shows "(\<forall>m. i + m < LOCAL_RETRIES \<longrightarrow> ep (handshakes s + m) \<noteq> None) \<and>
         ep (handshakes s + (LOCAL_RETRIES - 1 - i)) = Some x"
  using assms
proof (induction ep e i s arbitrary: s' rule: ready_loop.induct)
  case (1 ep e i s)
  obtain b s1 where b: "ready_body ep e i s = (b, s1)" by force
  note bs = ready_body_shape[OF b "1.prems"(2)]
  have br: "b = (case ep (handshakes s) of
        None \<Rightarrow> Some (Returned ())
      | Some x \<Rightarrow> if i = LOCAL_RETRIES - 1 then Some (Thrown x) else None)"
    using ready_body_result[of ep e i s] b by simp
  show ?case
  proof (cases b)
    case None
    then have rec: "ready_loop ep e (i + 1) s1 = (Thrown x, s')"
      using "1.prems"(1,3) b by (subst (asm) ready_loop.simps) simp
    from br None have ne: "i \<noteq> LOCAL_RETRIES - 1" and f: "ep (handshakes s) \<noteq> None"
      by (auto split: option.splits if_splits)
    then have lt: "i + 1 < LOCAL_RETRIES" using "1.prems"(3) by simp
    have "e < length (pool s1)" using bs(2) "1.prems"(2) by simp
    from "1.IH"[OF "1.prems"(3) b[symmetric] None rec this lt] bs(3)
    have ih: "(\<forall>m. i + 1 + m < LOCAL_RETRIES \<longrightarrow> ep (handshakes s + 1 + m) \<noteq> None) \<and>
         ep (handshakes s + 1 + (LOCAL_RETRIES - 1 - (i + 1))) = Some x" by simp
    have "ep (handshakes s + m) \<noteq> None" if "i + m < LOCAL_RETRIES" for m
    proof (cases m)
      case 0
      then show ?thesis using f by simp
    next
      case (Suc m')
      then show ?thesis using ih that by simp
    qed
    then have all: "\<forall>m. i + m < LOCAL_RETRIES \<longrightarrow> ep (handshakes s + m) \<noteq> None" by blast
    have idx: "handshakes s + 1 + (LOCAL_RETRIES - 1 - (i + 1)) = handshakes s + (LOCAL_RETRIES - 1 - i)"
      using lt by arith
    from ih have "ep (handshakes s + 1 + (LOCAL_RETRIES - 1 - (i + 1))) = Some x" by blast
    then have "ep (handshakes s + (LOCAL_RETRIES - 1 - i)) = Some x" unfolding idx .
    with all show ?thesis by blast
  next
    case (Some o1)
    then have eq: "Thrown x = o1" "s' = s1"
      using "1.prems"(1,3) b by (subst (asm) ready_loop.simps, simp)+
    with br Some have i: "i = LOCAL_RETRIES - 1" and f: "ep (handshakes s) = Some x"
      by (auto split: option.splits if_splits)
    have m0: "m = 0" if "i + m < LOCAL_RETRIES" for m using that i by (simp add: LOCAL_RETRIES_def)
    have a: "\<forall>m. i + m < LOCAL_RETRIES \<longrightarrow> ep (handshakes s + m) \<noteq> None"
    proof (intro allI impI)
      fix m assume "i + m < LOCAL_RETRIES"
      then have "m = 0" by (rule m0)
      with f show "ep (handshakes s + m) \<noteq> None" by simp
    qed
    have b: "ep (handshakes s + (LOCAL_RETRIES - 1 - i)) = Some x" using i f by simp
    from a b show ?thesis by blast
  qed
qed

lemma ready_throws:
  assumes "ready ep e s = (Thrown x, s')" and "e < length (pool s)"
  shows "reconnect_fails ep (handshakes s) x"
proof -
  have "ready_loop ep e 0 s = (Thrown x, s')"
    using assms(1) by (auto simp: ready_def split: if_splits)
  from ready_loop_throws[OF this assms(2)] show ?thesis
    by (simp add: reconnect_fails_def list_all_iff LOCAL_RETRIES_def)
qed

lemma acquire_unfold:
  "acquire ep s =
     (let s2 = s\<lparr>pool := map (reap (now s)) (pool s), nxt := nxt s + 1\<rparr>;
          n = length (pool s);
          e = (if n < MAX_CONN then n else nxt s mod n);
          s3 = (if n < MAX_CONN then newEntry s2 else s2)
      in case ready ep e s3 of
           (Thrown x, s4) \<Rightarrow> (Thrown x, s4)
         | (Returned u, s4) \<Rightarrow> (Returned e, upd_entry e (\<lambda>x. x\<lparr>busy := True\<rparr>) s4))"
  by (cases "pool s") (simp_all add: acquire_def select_entry_def Let_def MAX_CONN_def)

lemma acquire_shape:
  assumes "acquire ep s = (r, s')"
  shows "length (pool s') = (if length (pool s) < MAX_CONN then length (pool s) + 1 else length (pool s))"
    and "nxt s' = nxt s + 1"
    and "r = Returned e \<Longrightarrow>
           e = (if length (pool s) < MAX_CONN then length (pool s) else nxt s mod length (pool s)) \<and>
           e < length (pool s') \<and> ok (pool s' ! e) \<and> busy (pool s' ! e)"
proof -
  let ?s2 = "s\<lparr>pool := map (reap (now s)) (pool s), nxt := nxt s + 1\<rparr>"
  let ?n = "length (pool s)"
  let ?e = "if ?n < MAX_CONN then ?n else nxt s mod ?n"
  let ?s3 = "if ?n < MAX_CONN then newEntry ?s2 else ?s2"
  have e0: "?e < length (pool ?s3)"
    by (auto simp: newEntry_def MAX_CONN_def intro!: mod_less_divisor)
  have len3: "length (pool ?s3) = (if ?n < MAX_CONN then ?n + 1 else ?n)" "nxt ?s3 = nxt s + 1"
    by (auto simp: newEntry_def)
  obtain rr s4 where rd: "ready ep ?e ?s3 = (rr, s4)" by force
  have unf: "(r, s') = (case (rr, s4) of
           (Thrown x, s4) \<Rightarrow> (Thrown x, s4)
         | (Returned u, s4) \<Rightarrow> (Returned ?e, upd_entry ?e (\<lambda>x. x\<lparr>busy := True\<rparr>) s4))"
    using assms rd unfolding acquire_unfold Let_def by simp
  note rs = ready_shape[OF rd e0]
  show "length (pool s') = (if length (pool s) < MAX_CONN then length (pool s) + 1 else length (pool s))"
    using unf rs len3 by (auto simp: upd_entry_def split: outcome.splits)
  show "nxt s' = nxt s + 1"
    using unf rs len3 by (auto simp: upd_entry_def split: outcome.splits)
  show "r = Returned e \<Longrightarrow>
           e = (if length (pool s) < MAX_CONN then length (pool s) else nxt s mod length (pool s)) \<and>
           e < length (pool s') \<and> ok (pool s' ! e) \<and> busy (pool s' ! e)"
    using unf rs e0 by (auto simp: upd_entry_def split: outcome.splits)
qed

lemma op_body_shape:
  assumes "op_body ep opr e i s = (b, s')" and "e < length (pool s)"
  shows "length (pool s') = length (pool s) \<and> handshakes s \<le> handshakes s'"
    and "opr i = Returned v \<Longrightarrow> b = Some (Returned (Some v)) \<and> \<not> busy (pool s' ! e)"
    and "opr i = Thrown x \<Longrightarrow> \<not> transient (err_str x) \<or> i = OP_RETRIES \<Longrightarrow>
           b = Some (Thrown x) \<and> \<not> busy (pool s' ! e)"
    and "opr i = Thrown x \<Longrightarrow> transient (err_str x) \<Longrightarrow> i \<noteq> OP_RETRIES \<Longrightarrow>
           leases s' = leases s \<and>
           ((b = None \<and> ok (pool s' ! e) \<and> clients s \<le> client (pool s' ! e) \<and>
             handshakes s < handshakes s' \<and> ep (handshakes s' - 1) = None) \<or>
            (\<exists>y. b = Some (Thrown y) \<and> reconnect_fails ep (handshakes s) y \<and>
                 \<not> ok (pool s' ! e)))"
proof -
  show "opr i = Returned v \<Longrightarrow> b = Some (Returned (Some v)) \<and> \<not> busy (pool s' ! e)"
    using assms by (auto simp: op_body_def release_def upd_entry_def)
  show "opr i = Thrown x \<Longrightarrow> \<not> transient (err_str x) \<or> i = OP_RETRIES \<Longrightarrow>
           b = Some (Thrown x) \<and> \<not> busy (pool s' ! e)"
    using assms by (auto simp: op_body_def release_def upd_entry_def)
  have tr: "leases s' = leases s \<and> length (pool s') = length (pool s) \<and> handshakes s \<le> handshakes s' \<and>
           ((b = None \<and> ok (pool s' ! e) \<and> clients s \<le> client (pool s' ! e) \<and>
             handshakes s < handshakes s' \<and> ep (handshakes s' - 1) = None) \<or>
            (\<exists>y. b = Some (Thrown y) \<and> reconnect_fails ep (handshakes s) y \<and>
                 \<not> ok (pool s' ! e)))"
    if x: "opr i = Thrown x" "transient (err_str x)" "i \<noteq> OP_RETRIES" for x
  proof -
    define s2 where "s2 = (let s1 = upd_entry e (\<lambda>x. x\<lparr>ok := False\<rparr>) s
                           in if err_code x = Some ''ECONNREFUSED'' then failure s1 else s1)"
    have s2: "leases s2 = leases s" "length (pool s2) = length (pool s)" "handshakes s2 = handshakes s"
      "clients s2 = clients s" "\<not> ok (pool s2 ! e)"
      using assms(2)
      by (auto simp: s2_def Let_def upd_entry_def failure_def leases_def map_update_same)
    obtain rr s3 where rd: "ready ep e s2 = (rr, s3)" by force
    have e2: "e < length (pool s2)" using s2 assms(2) by simp
    note rs = ready_shape[OF rd e2]
    have bs: "(b, s') = (case rr of Thrown y \<Rightarrow> (Some (Thrown y), s3) | Returned u \<Rightarrow> (None, s3))"
      using assms(1) x rd by (simp add: op_body_def s2_def Let_def)
    show ?thesis
    proof (cases rr)
      case (Returned u)
      with bs rs s2 show ?thesis by auto
    next
      case (Thrown y)
      with rd have "ready ep e s2 = (Thrown y, s3)" by simp
      from ready_throws[OF this e2] s2(3) have "reconnect_fails ep (handshakes s) y" by simp
      with Thrown bs rs s2 show ?thesis by auto
    qed
  qed
  from tr show "opr i = Thrown x \<Longrightarrow> transient (err_str x) \<Longrightarrow> i \<noteq> OP_RETRIES \<Longrightarrow>
           leases s' = leases s \<and>
           ((b = None \<and> ok (pool s' ! e) \<and> clients s \<le> client (pool s' ! e) \<and>
             handshakes s < handshakes s' \<and> ep (handshakes s' - 1) = None) \<or>
            (\<exists>y. b = Some (Thrown y) \<and> reconnect_fails ep (handshakes s) y \<and>
                 \<not> ok (pool s' ! e)))"
    by blast
  show "length (pool s') = length (pool s) \<and> handshakes s \<le> handshakes s'"
  proof (cases "opr i")
    case (Returned v)
    then show ?thesis using assms by (auto simp: op_body_def release_def upd_entry_def)
  next
    case (Thrown x)
    show ?thesis
    proof (cases "\<not> transient (err_str x) \<or> i = OP_RETRIES")
      case True
      then show ?thesis using assms Thrown by (auto simp: op_body_def release_def upd_entry_def)
    next
      case False
      then show ?thesis using tr[OF Thrown] by blast
    qed
  qed
qed

text \<open>
  A run of the retry loop from attempt \<open>i\<close> whose attempts before \<open>j\<close> fail transiently and
  whose attempt \<open>j\<close> is final: it ends with the result of attempt \<open>j\<close> and the lease
  released, or with the error of a reconnection that failed and the lease as it was.
\<close>

lemma op_loop_run:
  assumes "op_loop ep opr e i s = (r, s')"
    and "e < length (pool s)" and "i \<le> j" and "j \<le> OP_RETRIES"
    and "\<forall>k. i \<le> k \<and> k < j \<longrightarrow> (\<exists>x. opr k = Thrown x \<and> transient (err_str x))"
    and "(\<exists>v. opr j = Returned v \<and> fin = Returned (Some v)) \<or>
         (\<exists>y. opr j = Thrown y \<and> (\<not> transient (err_str y) \<or> j = OP_RETRIES) \<and> fin = Thrown y)"
  shows "(r = fin \<and> \<not> busy (pool s' ! e)) \<or>
         (\<exists>y n. r = Thrown y \<and> reconnect_fails ep n y \<and> handshakes s \<le> n \<and> leases s' = leases s)"
  using assms
proof (induction "j - i" arbitrary: i s)
  case 0
  then have ij: "i = j" by simp
  obtain b s1 where b: "op_body ep opr e i s = (b, s1)" by force
  note bs = op_body_shape[OF b "0.prems"(2)]
  from "0.prems"(6) ij have "b = Some fin \<and> \<not> busy (pool s1 ! e)"
    using bs(2,3) by auto
  moreover have "op_loop ep opr e i s = (case (b, s1) of (Some r, s') \<Rightarrow> (r, s') | (None, s') \<Rightarrow> op_loop ep opr e (i + 1) s')"
    using "0.prems"(4) ij b by (subst op_loop.simps) simp
  ultimately show ?case using "0.prems"(1) by auto
next
  case (Suc d)
  then have lt: "i < j" by simp
  with Suc.prems(5) obtain x where x: "opr i = Thrown x" "transient (err_str x)" by auto
  have ne: "i \<noteq> OP_RETRIES" using lt Suc.prems(4) by simp
  obtain b s1 where b: "op_body ep opr e i s = (b, s1)" by force
  note bs = op_body_shape[OF b Suc.prems(2)]
  have unf: "op_loop ep opr e i s = (case (b, s1) of (Some r, s') \<Rightarrow> (r, s') | (None, s') \<Rightarrow> op_loop ep opr e (i + 1) s')"
    using lt Suc.prems(4) b by (subst op_loop.simps) simp
  from bs(4)[OF x ne] show ?case
  proof (elim conjE disjE exE)
    assume l: "leases s1 = leases s" and "b = None"
      and hs: "handshakes s < handshakes s1"
    then have rec: "op_loop ep opr e (i + 1) s1 = (r, s')" using unf Suc.prems(1) by simp
    have "d = j - (i + 1)" using Suc.hyps(2) by simp
    from Suc.hyps(1)[OF this rec _ _ Suc.prems(4) _ Suc.prems(6)] bs(1) Suc.prems(2,5) lt
    have "r = fin \<and> \<not> busy (pool s' ! e) \<or>
          (\<exists>y n. r = Thrown y \<and> reconnect_fails ep n y \<and> handshakes s1 \<le> n \<and> leases s' = leases s1)"
      by auto
    then show ?thesis
    proof (elim disjE exE conjE)
      fix y n
      assume "r = Thrown y" "reconnect_fails ep n y" "handshakes s1 \<le> n" "leases s' = leases s1"
      moreover from this hs have "handshakes s \<le> n" by simp
      ultimately show ?thesis using l by auto
    qed simp
  next
    fix y
    assume "leases s1 = leases s" "b = Some (Thrown y)" "reconnect_fails ep (handshakes s) y"
    then show ?thesis using unf Suc.prems(1) by auto
  qed
qed

text \<open>
  The loop makes no attempt beyond attempt \<open>OP_RETRIES\<close>, and an attempt that fails with an
  error that is not transient ends the call at once, the lease released.
\<close>

lemma op_loop_attempts:
  "\<forall>k\<le>OP_RETRIES. opr k = opr' k \<Longrightarrow> op_loop ep opr e i s = op_loop ep opr' e i s"
proof (induction ep opr e i s rule: op_loop.induct)
  case (1 ep opr e i s)
  show ?case
  proof (cases "i \<le> OP_RETRIES")
    case True
    with "1.prems" have b: "op_body ep opr' e i s = op_body ep opr e i s"
      by (simp add: op_body_def)
    obtain b s1 where bb: "op_body ep opr e i s = (b, s1)" by force
    show ?thesis
    proof (cases b)
      case None
      from "1.IH"[OF True bb[symmetric] None "1.prems"] True bb b None show ?thesis
        by (subst op_loop.simps, subst (2) op_loop.simps) simp
    next
      case (Some r)
      with True bb b show ?thesis
        by (subst op_loop.simps, subst (2) op_loop.simps) simp
    qed
  next
    case False
    then show ?thesis by (subst op_loop.simps, subst (2) op_loop.simps) simp
  qed
qed

lemma op_loop_not_transient:
  "opr i = Thrown y \<Longrightarrow> \<not> transient (err_str y) \<Longrightarrow> i \<le> OP_RETRIES \<Longrightarrow>
   op_loop ep opr e i s = (Thrown y, release e s)"
  by (subst op_loop.simps) (simp add: op_body_def)

text \<open>
  Below \<open>MAX_CONN\<close>, with the breaker closed, the endpoint up and every entry leased,
  \<open>acquire\<close> appends a new entry, connects it on a second client object (the first one
  is replaced in \<open>#ready\<close>) and leases it.
\<close>

lemma acquire_grows:
  assumes "length (pool s) < MAX_CONN" and "breakerUntil s \<le> now s"
    and "\<forall>x\<in>set (pool s). busy x"
  shows "acquire (\<lambda>n. None) s =
     (Returned (length (pool s)),
      s\<lparr>pool := pool s @ [\<lparr>client = clients s + 1, busy = True, lastUse = 0, ok = True\<rparr>],
        nxt := nxt s + 1, lastHS := max (now s) (lastHS s + 1000), fails := 0, breakerUntil := 0,
        now := max (now s) (lastHS s + 1000), clients := clients s + 2,
        handshakes := handshakes s + 1\<rparr>)"
proof -
  have r: "map (reap (now s)) (pool s) = pool s"
    using assms(3) by (simp add: reap_def map_idI)
  show ?thesis
    unfolding acquire_unfold Let_def r
    using assms(1,2)
    by (simp add: ready_def newEntry_def nth_append)
      (subst ready_loop.simps,
       simp add: ready_body_unfold connect_def connect_interleaved_def handshake_def resume_def
         awaitBreaker_eq upd_entry_def success_def sleep_def
         LOCAL_RETRIES_def CONNECT_GAP_MS_def Let_def nth_append max_def)
qed

text \<open>
  Ten calls of \<open>acquire\<close> on a new pool, every handshake succeeding and no lease
  released in between, lead to the state \<open>ten_leases\<close>.
\<close>

lemma ten_leases_reached:
  "((\<lambda>s. snd (acquire (\<lambda>n. None) s)) ^^ 10) (new_pool 5000) = ten_leases"
  by (simp add: eval_nat_numeral acquire_grows new_pool_def MAX_CONN_def ten_leases_def upt_rec)

text \<open>
  Claim C1. \<open>acquire\<close> is to return an entry that is healthy and free and mark it busy,
  creating an entry only below \<open>MAX_CONN\<close> and reusing one round-robin otherwise. The
  code never looks at \<open>busy\<close> when it chooses: with all \<open>MAX_CONN\<close> entries leased, the
  next \<open>acquire\<close> returns entry 0, which is leased to another call at that moment.
\<close>

theorem acquire_reuses_leased_entry:
  "length (pool ten_leases) = MAX_CONN \<and> busy (pool ten_leases ! 0) \<and>
   acquire ep ten_leases = (Returned 0, ten_leases\<lparr>nxt := 11\<rparr>)"
  by (simp add: ten_leases_def acquire_def select_entry_def ready_def reap_def upd_entry_def MAX_CONN_def Let_def upt_rec)

text \<open>
  Claim C2. Every proxied call is to clear the busy flag of its entry by the time it
  completes. When an attempt fails transiently and the reconnection inside the retry
  fails too, the call ends with the handshake error and the entry still marked busy:
  here the first handshake succeeds, the operation fails with a connection reset, and
  all six handshakes of \<open>#ready\<close> are refused.
\<close>

theorem proxy_call_failed_reconnect_keeps_lease:
  "(case proxy_call (\<lambda>n. if n = 0 then None else Some refused_err)
           (\<lambda>i. Thrown reset_err :: unit outcome) (new_pool 5000) of
      (r, s') \<Rightarrow> r = Thrown refused_err \<and> pool s' = [\<lparr>client = 7, busy = True, lastUse = 0, ok = False\<rparr>])"
  by code_simp

text \<open>
  The breaker in a run where no other call acts while \<open>#connect\<close> sleeps. Every handshake
  of \<open>#ready\<close> starts when the breaker is closed; a refused one adds one to the failure
  count and opens the breaker for \<open>open_duration\<close> of the new count from that moment, any
  other failure leaves the breaker as it is, and a success resets the count and closes
  it. So the count after a reconnection is \<open>count_after\<close> of its handshakes, and the
  \<open>k\<close>-th refusal in a row opens the breaker for \<open>BREAKER_BASE_MS * 2 ^ min (k - 1) 5\<close>,
  which does not decrease with \<open>k\<close>.
\<close>

lemma open_duration_mono: "k \<le> k' \<Longrightarrow> open_duration k \<le> open_duration k'"
  by (simp add: open_duration_def BREAKER_BASE_MS_def power_increasing)

lemma failure_opens:
  "fails (failure s) = fails s + 1 \<and>
   breakerUntil (failure s) = now s + open_duration (fails s + 1)"
  by (simp add: failure_def open_duration_def Let_def)

lemma connect_breaker:
  assumes "connect ep e s = (r, s')"
  shows "lastHS s' = now s' \<and> breakerUntil s \<le> lastHS s'"
    and "ep (handshakes s) = None \<Longrightarrow> fails s' = 0 \<and> breakerUntil s' = 0"
    and "ep (handshakes s) \<noteq> None \<Longrightarrow> fails s' = fails s \<and> breakerUntil s' = breakerUntil s"
  using assms
  by (auto simp: connect_def connect_interleaved_def handshake_def resume_def awaitBreaker_eq Let_def
      success_def upd_entry_def CONNECT_GAP_MS_def split: option.splits if_splits)

lemma ready_body_breaker:
  assumes "ready_body ep e i s = (b, s')"
  shows "breakerUntil s \<le> lastHS s'"
    and "ep (handshakes s) = None \<Longrightarrow> fails s' = 0 \<and> breakerUntil s' = 0"
    and "ep (handshakes s) = Some x \<Longrightarrow> err_code x = Some ''ECONNREFUSED'' \<Longrightarrow>
           fails s' = fails s + 1 \<and> breakerUntil s' = lastHS s' + open_duration (fails s + 1)"
    and "ep (handshakes s) = Some x \<Longrightarrow> err_code x \<noteq> Some ''ECONNREFUSED'' \<Longrightarrow>
           fails s' = fails s \<and> breakerUntil s' = breakerUntil s"
    and "fails s' = count_after ep (fails s) (handshakes s) 1"
proof -
  define s1 where "s1 = (if \<not> ok (pool s ! e)
                then (upd_entry e (\<lambda>x. x\<lparr>client := clients s\<rparr>) s)\<lparr>clients := clients s + 1\<rparr>
                else s)"
  obtain rc s2 where c: "connect ep e s1 = (rc, s2)" by force
  note cb = connect_breaker[OF c]
  note cs = connect_shape[OF c]
  have s1: "handshakes s1 = handshakes s" "fails s1 = fails s" "breakerUntil s1 = breakerUntil s"
    by (auto simp: s1_def upd_entry_def)
  have r: "(b, s') = (case (rc, s2) of
           (Returned u, s2) \<Rightarrow> (Some (Returned ()), s2)
         | (Thrown x, s2) \<Rightarrow>
             (let s4 = on_connect_error x e s2
              in if i = LOCAL_RETRIES - 1 then (Some (Thrown x), s4)
                 else (None, sleep (BACKOFF_MS * (int i + 1)) s4)))"
    using assms(1) c unfolding ready_body_unfold s1_def[symmetric] Let_def by simp
  have rc: "rc = (case ep (handshakes s) of None \<Rightarrow> Returned () | Some x \<Rightarrow> Thrown x)"
    using connect_result[of ep e s1] c s1 by simp
  show "breakerUntil s \<le> lastHS s'"
    using r cb(1) s1
    by (auto simp: Let_def on_connect_error_def failure_def sleep_def upd_entry_def
        split: outcome.splits if_splits)
  show n: "ep (handshakes s) = None \<Longrightarrow> fails s' = 0 \<and> breakerUntil s' = 0"
    using r rc cb(2) s1 by (auto simp: Let_def)
  show f: "ep (handshakes s) = Some x \<Longrightarrow> err_code x = Some ''ECONNREFUSED'' \<Longrightarrow>
           fails s' = fails s + 1 \<and> breakerUntil s' = lastHS s' + open_duration (fails s + 1)" for x
    using r rc cb(1,3) s1
    by (auto simp: Let_def on_connect_error_def failure_def open_duration_def sleep_def upd_entry_def
        split: if_splits)
  show g: "ep (handshakes s) = Some x \<Longrightarrow> err_code x \<noteq> Some ''ECONNREFUSED'' \<Longrightarrow>
           fails s' = fails s \<and> breakerUntil s' = breakerUntil s" for x
    using r rc cb(3) s1
    by (auto simp: Let_def on_connect_error_def sleep_def upd_entry_def split: if_splits)
  show "fails s' = count_after ep (fails s) (handshakes s) 1"
  proof (cases "ep (handshakes s)")
    case None
    with n show ?thesis by simp
  next
    case (Some x)
    with f[of x] g[of x] show ?thesis by (cases "err_code x = Some ''ECONNREFUSED''") simp_all
  qed
qed

lemma count_after_add:
  "count_after ep (count_after ep f n a) (n + a) k = count_after ep f n (a + k)"
  by (induction k) (simp_all add: add.assoc split: option.splits)

lemma ready_loop_counts:
  assumes "ready_loop ep e i s = (r, s')" and "e < length (pool s)" and "i < LOCAL_RETRIES"
  shows "fails s' = count_after ep (fails s) (handshakes s) (handshakes s' - handshakes s)"
  using assms
proof (induction ep e i s arbitrary: r s' rule: ready_loop.induct)
  case (1 ep e i s)
  obtain b s1 where b: "ready_body ep e i s = (b, s1)" by force
  note bs = ready_body_shape[OF b "1.prems"(2)]
  note bb = ready_body_breaker(5)[OF b]
  show ?case
  proof (cases b)
    case None
    then have rec: "ready_loop ep e (i + 1) s1 = (r, s')"
      using "1.prems"(1,3) b by (subst (asm) ready_loop.simps) simp
    have "i \<noteq> LOCAL_RETRIES - 1"
      using b None by (auto simp: ready_body_unfold Let_def split: prod.splits outcome.splits if_splits)
    then have lt: "i + 1 < LOCAL_RETRIES" using "1.prems"(3) by simp
    have e1: "e < length (pool s1)" using bs(2) "1.prems"(2) by simp
    have h: "handshakes s1 < handshakes s'" using ready_loop_shape[OF rec e1 lt] by simp
    from "1.IH"[OF "1.prems"(3) b[symmetric] None rec e1 lt]
    have "fails s' = count_after ep (count_after ep (fails s) (handshakes s) 1) (handshakes s + 1)
        (handshakes s' - handshakes s1)"
      using bb bs(3) by simp
    also have "\<dots> = count_after ep (fails s) (handshakes s) (1 + (handshakes s' - handshakes s1))"
      by (rule count_after_add)
    also have "1 + (handshakes s' - handshakes s1) = handshakes s' - handshakes s"
      using h bs(3) by simp
    finally show ?thesis .
  next
    case (Some o1)
    then have eq: "s' = s1"
      using "1.prems"(1,3) b by (subst (asm) ready_loop.simps, simp)
    with bb bs(3) show ?thesis by simp
  qed
qed

lemma ready_counts:
  assumes "ready ep e s = (r, s')" and "e < length (pool s)"
  shows "fails s' = count_after ep (fails s) (handshakes s) (handshakes s' - handshakes s)"
proof (cases "ok (pool s ! e)")
  case True
  then show ?thesis using assms by (auto simp: ready_def)
next
  case False
  then have "ready_loop ep e 0 s = (r, s')" using assms by (simp add: ready_def)
  from ready_loop_counts[OF this assms(2)] show ?thesis by (simp add: LOCAL_RETRIES_def)
qed

lemma op_body_counts:
  assumes "op_body ep opr e i s = (b, s')" and "e < length (pool s)"
    and "opr i = Thrown x" and "transient (err_str x)" and "i \<noteq> OP_RETRIES"
  shows "fails s' =
     count_after ep (if err_code x = Some ''ECONNREFUSED'' then fails s + 1 else fails s)
       (handshakes s) (handshakes s' - handshakes s)"
proof -
  define s2 where "s2 = (let s1 = upd_entry e (\<lambda>x. x\<lparr>ok := False\<rparr>) s
                         in if err_code x = Some ''ECONNREFUSED'' then failure s1 else s1)"
  have s2: "length (pool s2) = length (pool s)" "handshakes s2 = handshakes s"
    "fails s2 = (if err_code x = Some ''ECONNREFUSED'' then fails s + 1 else fails s)"
    by (auto simp: s2_def Let_def upd_entry_def failure_def)
  obtain rr s3 where rd: "ready ep e s2 = (rr, s3)" by force
  have e2: "e < length (pool s2)" using s2 assms(2) by simp
  have "(b, s') = (case rr of Thrown y \<Rightarrow> (Some (Thrown y), s3) | Returned u \<Rightarrow> (None, s3))"
    using assms rd by (simp add: op_body_def s2_def Let_def)
  then have "s' = s3" by (cases rr) auto
  with ready_counts[OF rd e2] s2 show ?thesis by simp
qed

text \<open>A run of refusals: the \<open>k\<close>-th refusal in a row makes the count \<open>k\<close>.\<close>

lemma count_after_refusals:
  "\<forall>m<k. \<exists>x. ep (n + m) = Some x \<and> err_code x = Some ''ECONNREFUSED'' \<Longrightarrow>
   count_after ep 0 n k = k"
  by (induction k) auto

text \<open>The pool of the two calls when the second call enters \<open>#connect\<close>.\<close>

lemma connect_pending_reached:
  "fst (select_entry (resume 5050 first_call_pending)) = 1"
  "connect_pending =
     \<lparr>pool = [\<lparr>client = 1, busy = False, lastUse = 0, ok = False\<rparr>,
              \<lparr>client = 3, busy = False, lastUse = 0, ok = False\<rparr>],
      nxt = 2, lastHS = 5000, fails = 0, breakerUntil = 0, now = 5050, clients = 4,
      handshakes = 1\<rparr>"
proof -
  have f: "first_call_pending =
     \<lparr>pool = [\<lparr>client = 1, busy = False, lastUse = 0, ok = False\<rparr>],
      nxt = 1, lastHS = 5000, fails = 0, breakerUntil = 0, now = 5000, clients = 2,
      handshakes = 1\<rparr>"
    by (simp add: first_call_pending_def select_entry_def new_pool_def newEntry_def recreate_def
        upd_entry_def connect_def connect_interleaved_def handshake_def awaitBreaker_eq
        refusing_def CONNECT_GAP_MS_def Let_def)
  have s: "select_entry (resume 5050 first_call_pending) =
     (1, \<lparr>pool = [\<lparr>client = 1, busy = False, lastUse = 0, ok = False\<rparr>,
                  \<lparr>client = 2, busy = False, lastUse = 0, ok = False\<rparr>],
          nxt = 2, lastHS = 5000, fails = 0, breakerUntil = 0, now = 5050, clients = 3,
          handshakes = 1\<rparr>)"
    unfolding f
    by (simp add: select_entry_def resume_def reap_def newEntry_def MAX_CONN_def Let_def)
  show "fst (select_entry (resume 5050 first_call_pending)) = 1" by (simp add: s)
  show "connect_pending =
     \<lparr>pool = [\<lparr>client = 1, busy = False, lastUse = 0, ok = False\<rparr>,
              \<lparr>client = 3, busy = False, lastUse = 0, ok = False\<rparr>],
      nxt = 2, lastHS = 5000, fails = 0, breakerUntil = 0, now = 5050, clients = 4,
      handshakes = 1\<rparr>"
    unfolding connect_pending_def s
    by (simp add: recreate_def upd_entry_def)
qed

text \<open>
  Claim C3. Every connect attempt is to wait out an open breaker before it handshakes.
  \<open>#connect\<close> reads the breaker before \<open>await sleep(gap)\<close> only. Here the second call
  enters \<open>#connect\<close> at time 5050 with the breaker closed and sleeps until 6000, the first
  call's handshake is refused at 5100, which opens the breaker until 65100, and the second
  call starts handshake 1 at time 6000 all the same, while the breaker is open. (A call
  that enters \<open>#connect\<close> after the refusal handshakes at 65100.)
\<close>

theorem connect_handshakes_under_open_breaker:
  "fst (select_entry (resume 5050 first_call_pending)) = 1 \<and>
   now connect_pending = 5050 \<and> breakerUntil connect_pending = 0 \<and>
   connect_interleaved refused_meanwhile refusing 1 connect_pending =
     handshake refusing 1 (resume 6000 (refused_meanwhile connect_pending)) \<and>
   now (resume 6000 (refused_meanwhile connect_pending)) = 6000 \<and>
   fails (resume 6000 (refused_meanwhile connect_pending)) = 1 \<and>
   breakerUntil (resume 6000 (refused_meanwhile connect_pending)) = 65100 \<and>
   fst (connect_interleaved refused_meanwhile refusing 1 connect_pending) = Thrown refused_err \<and>
   lastHS (snd (connect_interleaved refused_meanwhile refusing 1 connect_pending)) = 6000 \<and>
   handshakes (snd (connect_interleaved refused_meanwhile refusing 1 connect_pending)) = 2 \<and>
   lastHS (snd (connect refusing 1 (refused_meanwhile connect_pending))) = 65100"
proof -
  note p = connect_pending_reached(2)
  have a: "awaitBreaker connect_pending = connect_pending"
    by (simp add: awaitBreaker_eq p)
  have m: "resume 6000 (refused_meanwhile connect_pending) =
      connect_pending\<lparr>fails := 1, breakerUntil := 65100, now := 6000\<rparr>"
    by (simp add: resume_def refused_meanwhile_def on_connect_error_def refused_err_def failure_def
        upd_entry_def p BREAKER_BASE_MS_def Let_def)
  have c: "connect_interleaved refused_meanwhile refusing 1 connect_pending =
     handshake refusing 1 (resume 6000 (refused_meanwhile connect_pending))"
    unfolding connect_interleaved_def a Let_def
    by (simp add: p CONNECT_GAP_MS_def)
  have q: "lastHS (snd (connect refusing 1 (refused_meanwhile connect_pending))) = 65100"
    by (simp add: connect_def connect_interleaved_def handshake_def resume_def awaitBreaker_eq
        refused_meanwhile_def on_connect_error_def refused_err_def refusing_def failure_def
        upd_entry_def p BREAKER_BASE_MS_def CONNECT_GAP_MS_def Let_def)
  show ?thesis
    unfolding c q connect_pending_reached(1) unfolding m
    by (simp add: handshake_def refusing_def p Let_def)
qed

text \<open>
  Claim C6. For a proxied call that has leased entry \<open>e\<close>. An attempt \<open>i < OP_RETRIES\<close>
  that fails transiently either lets the loop go on, and then the entry is healthy again
  on a client object constructed after the failure, through a new handshake that
  succeeded, or ends the call with the error of the reconnection, whose \<open>LOCAL_RETRIES\<close>
  handshakes have all failed. When the first \<open>OP_RETRIES\<close> attempts fail transiently and
  the next one succeeds, the call returns its result, unless a reconnection in between
  failed, which ends the call with the error of that reconnection. The error of attempt
  \<open>j\<close> is re-raised when it is not transient or \<open>j = OP_RETRIES\<close>, all attempts before it
  having failed transiently, again unless a reconnection in between failed; an error of
  the first attempt that is not transient is re-raised at once, the lease released. No
  attempt is made beyond attempt \<open>OP_RETRIES\<close>: the call does not depend on what later
  attempts would give.
\<close>

theorem proxy_transient_retry:
  fixes opr :: "nat \<Rightarrow> 'v outcome"
  assumes "acquire ep s0 = (Returned e, s)"
  shows "(\<forall>t b t' x. e < length (pool t) \<and> i < OP_RETRIES \<and> opr i = Thrown x \<and>
            transient (err_str x) \<and> op_body ep opr e i t = (b, t') \<longrightarrow>
            (b = None \<and> ok (pool t' ! e) \<and> clients t \<le> client (pool t' ! e) \<and>
             handshakes t < handshakes t' \<and> ep (handshakes t' - 1) = None) \<or>
            (\<exists>y. b = Some (Thrown y) \<and> reconnect_fails ep (handshakes t) y)) \<and>
         ((\<forall>k<OP_RETRIES. \<exists>x. opr k = Thrown x \<and> transient (err_str x)) \<and>
          opr OP_RETRIES = Returned v \<longrightarrow>
            fst (proxy_call ep opr s0) = Returned (Some v) \<or>
            (\<exists>n\<ge>handshakes s. \<exists>z. reconnect_fails ep n z \<and>
                fst (proxy_call ep opr s0) = Thrown z)) \<and>
         (j \<le> OP_RETRIES \<and> (\<forall>k<j. \<exists>x. opr k = Thrown x \<and> transient (err_str x)) \<and>
          opr j = Thrown y \<and> (\<not> transient (err_str y) \<or> j = OP_RETRIES) \<longrightarrow>
            fst (proxy_call ep opr s0) = Thrown y \<or>
            (\<exists>n\<ge>handshakes s. \<exists>z. reconnect_fails ep n z \<and>
                fst (proxy_call ep opr s0) = Thrown z)) \<and>
         (opr 0 = Thrown y \<and> \<not> transient (err_str y) \<longrightarrow>
            proxy_call ep opr s0 = (Thrown y, release e s)) \<and>
         ((\<forall>k\<le>OP_RETRIES. opr k = opr' k) \<longrightarrow> proxy_call ep opr s0 = proxy_call ep opr' s0)"
proof (intro conjI allI impI)
  fix t b t' x
  assume h: "e < length (pool t) \<and> i < OP_RETRIES \<and> opr i = Thrown x \<and>
            transient (err_str x) \<and> op_body ep opr e i t = (b, t')"
  then have "i \<noteq> OP_RETRIES" by simp
  with h op_body_shape(4)[of ep opr e i t b t' x]
  show "(b = None \<and> ok (pool t' ! e) \<and> clients t \<le> client (pool t' ! e) \<and>
             handshakes t < handshakes t' \<and> ep (handshakes t' - 1) = None) \<or>
            (\<exists>y. b = Some (Thrown y) \<and> reconnect_fails ep (handshakes t) y)"
    by blast
next
  have e: "e < length (pool s)" using acquire_shape(3)[OF assms] by simp
  have pc: "\<And>o'. proxy_call ep o' s0 = op_loop ep o' e 0 s" using assms by (simp add: proxy_call_def)
  obtain r s' where run: "op_loop ep opr e 0 s = (r, s')" by force
  {
    assume h: "(\<forall>k<OP_RETRIES. \<exists>x. opr k = Thrown x \<and> transient (err_str x)) \<and>
          opr OP_RETRIES = Returned v"
    from op_loop_run[OF run e, of OP_RETRIES "Returned (Some v)"] h
    show "fst (proxy_call ep opr s0) = Returned (Some v) \<or>
            (\<exists>n\<ge>handshakes s. \<exists>z. reconnect_fails ep n z \<and>
                fst (proxy_call ep opr s0) = Thrown z)"
      unfolding pc run by auto
  }
  {
    assume h: "j \<le> OP_RETRIES \<and> (\<forall>k<j. \<exists>x. opr k = Thrown x \<and> transient (err_str x)) \<and>
          opr j = Thrown y \<and> (\<not> transient (err_str y) \<or> j = OP_RETRIES)"
    from op_loop_run[OF run e, of j "Thrown y"] h
    show "fst (proxy_call ep opr s0) = Thrown y \<or>
            (\<exists>n\<ge>handshakes s. \<exists>z. reconnect_fails ep n z \<and>
                fst (proxy_call ep opr s0) = Thrown z)"
      unfolding pc run by auto
  }
  {
    assume "opr 0 = Thrown y \<and> \<not> transient (err_str y)"
    then show "proxy_call ep opr s0 = (Thrown y, release e s)"
      unfolding pc by (simp add: op_loop_not_transient)
  }
  {
    assume "\<forall>k\<le>OP_RETRIES. opr k = opr' k"
    then show "proxy_call ep opr s0 = proxy_call ep opr' s0"
      unfolding pc by (rule op_loop_attempts)
  }
qed

theorem proxy_transient_retry_witness:
  "transient (err_str reset_err) \<and> \<not> transient (err_str nofile_err) \<and>
   fst (proxy_call (\<lambda>n. if n = 1 then Some handshake_timeout_err else None)
         (\<lambda>i. if i < 2 then Thrown reset_err else Returned (7::nat)) (new_pool 5000)) =
     Returned (Some 7) \<and>
   fst (proxy_call (\<lambda>n. None) (\<lambda>i. Thrown reset_err :: nat outcome) (new_pool 5000)) =
     Thrown reset_err \<and>
   fst (proxy_call (\<lambda>n. None)
         (\<lambda>i. if i = 0 then Thrown nofile_err else Returned (7::nat)) (new_pool 5000)) =
     Thrown nofile_err \<and>
   leases (snd (proxy_call (\<lambda>n. None)
         (\<lambda>i. if i = 0 then Thrown nofile_err else Returned (7::nat)) (new_pool 5000))) = [False] \<and>
   proxy_call (\<lambda>n. None) (\<lambda>i. if i < 3 then Thrown reset_err else Returned (7::nat)) (new_pool 5000) =
     proxy_call (\<lambda>n. None) (\<lambda>i. Thrown reset_err) (new_pool 5000)"
proof -
  let ?up = "(\<lambda>n. None) :: endpoint"
  let ?ep = "(\<lambda>n. if n = 1 then Some handshake_timeout_err else None) :: endpoint"
  have a: "fst (acquire ?up (new_pool 5000)) = Returned 0" by code_simp
  have acq: "acquire ?up (new_pool 5000) = (Returned 0, snd (acquire ?up (new_pool 5000)))"
    using a by (metis prod.collapse)
  have a1: "fst (acquire ?ep (new_pool 5000)) = Returned 0" by code_simp
  have acq1: "acquire ?ep (new_pool 5000) = (Returned 0, snd (acquire ?ep (new_pool 5000)))"
    using a1 by (metis prod.collapse)
  have tr: "transient (err_str reset_err)" by code_simp
  have nt: "\<not> transient (err_str nofile_err)" by code_simp
  have nf: "\<not> reconnect_fails ?ep n z" for n z
    by (auto simp: reconnect_fails_def LOCAL_RETRIES_def upt_rec split: if_splits)
  have nf0: "\<not> reconnect_fails ?up n z" for n z
    by (simp add: reconnect_fails_def LOCAL_RETRIES_def)
  have 1: "fst (proxy_call ?ep (\<lambda>i. if i < 2 then Thrown reset_err else Returned (7::nat)) (new_pool 5000)) =
     Returned (Some 7)"
    using proxy_transient_retry[OF acq1, where opr = "\<lambda>i. if i < 2 then Thrown reset_err else Returned (7::nat)"
        and v = 7] tr nf
    by (simp add: OP_RETRIES_def)
  have 2: "fst (proxy_call ?up (\<lambda>i. Thrown reset_err :: nat outcome) (new_pool 5000)) =
     Thrown reset_err"
    using proxy_transient_retry[OF acq, where opr = "\<lambda>i. Thrown reset_err :: nat outcome"
        and j = 2 and y = reset_err] tr nf0
    by (simp add: OP_RETRIES_def)
  have 3: "proxy_call ?up (\<lambda>i. if i = 0 then Thrown nofile_err else Returned (7::nat)) (new_pool 5000) =
     (Thrown nofile_err, release 0 (snd (acquire ?up (new_pool 5000))))"
    using proxy_transient_retry[OF acq, where opr = "\<lambda>i. if i = 0 then Thrown nofile_err else Returned (7::nat)"
        and y = nofile_err] nt
    by simp
  have l: "leases (release 0 (snd (acquire ?up (new_pool 5000)))) = [False]" by code_simp
  have 4: "proxy_call ?up (\<lambda>i. if i < 3 then Thrown reset_err else Returned (7::nat)) (new_pool 5000) =
     proxy_call ?up (\<lambda>i. Thrown reset_err) (new_pool 5000)"
    using proxy_transient_retry[OF acq, where opr = "\<lambda>i. if i < 3 then Thrown reset_err else Returned (7::nat)"
        and opr' = "\<lambda>i. Thrown reset_err"]
    by (simp add: OP_RETRIES_def)
  from 1 2 3 4 l tr nt show ?thesis by simp
qed

section \<open>Properties of the scheduler\<close>



lemma scan_never_both:
  "it \<in> set (scanCtx lc c st P) \<Longrightarrow>
   \<not> (hasKnfo lc (read_listings st) (name it) \<and> hasMeta lc (read_listings st) (name it))"
  by (auto simp: scanCtx_def enqueued_def Let_def)

lemma scan_knfo_without_meta:
  "f \<in> set (xlsList (read_listings st)) \<Longrightarrow> candidate lc f \<Longrightarrow>
   hasKnfo lc (read_listings st) (fname f) \<Longrightarrow> \<not> hasMeta lc (read_listings st) (fname f) \<Longrightarrow>
   \<exists>it\<in>set (scanCtx lc c st P). name it = fname f"
  by (force simp: scanCtx_def enqueued_def Let_def)

text \<open>A listing that succeeds shows what is on the store.\<close>

lemma listed_artifacts:
  "\<not> knfo_list_fails st \<Longrightarrow> hasKnfo lc (read_listings st) n = hasKnfo lc (stored st) n"
  "\<not> meta_list_fails st \<Longrightarrow> hasMeta lc (read_listings st) n = hasMeta lc (stored st) n"
  "\<not> excel_list_fails st \<Longrightarrow> xlsList (read_listings st) = excel_files st"
  by (simp_all add: hasKnfo_def hasMeta_def read_listings_def stored_def)

text \<open>
  Claim C10, as the code has it. The artifact state that a scan goes by is that of its own
  KNFO and META listings, for any lowering of names, and a listing that fails counts as
  empty. No item that a scan enqueues has both its KNFO and its META artifact in these
  listings, and an Excel file that passes the scan's filters and whose key is in the
  processed set is enqueued all the same when they show its KNFO and not its META. When the
  KNFO and META listings both succeed, the same holds of the artifacts on the remote
  store (for the second part, of the Excel files on it when the Excel listing succeeds
  as well).
\<close>

theorem scan_artifacts_override:
  "(\<forall>it\<in>set (scanCtx lc c st P).
      \<not> (hasKnfo lc (read_listings st) (name it) \<and> hasMeta lc (read_listings st) (name it))) \<and>
   (f \<in> set (xlsList (read_listings st)) \<and> candidate lc f \<and> keyOf c (fname f) \<in> P \<and>
    hasKnfo lc (read_listings st) (fname f) \<and> \<not> hasMeta lc (read_listings st) (fname f) \<longrightarrow>
      (\<exists>it\<in>set (scanCtx lc c st P). name it = fname f)) \<and>
   (\<not> knfo_list_fails st \<and> \<not> meta_list_fails st \<longrightarrow>
      (\<forall>it\<in>set (scanCtx lc c st P).
         \<not> (hasKnfo lc (stored st) (name it) \<and> hasMeta lc (stored st) (name it))) \<and>
      (\<not> excel_list_fails st \<and> f \<in> set (excel_files st) \<and> candidate lc f \<and>
       keyOf c (fname f) \<in> P \<and> hasKnfo lc (stored st) (fname f) \<and>
       \<not> hasMeta lc (stored st) (fname f) \<longrightarrow>
         (\<exists>it\<in>set (scanCtx lc c st P). name it = fname f)))"
proof (intro conjI impI ballI)
  fix it assume "it \<in> set (scanCtx lc c st P)"
  then show "\<not> (hasKnfo lc (read_listings st) (name it) \<and> hasMeta lc (read_listings st) (name it))"
    by (rule scan_never_both)
next
  assume "f \<in> set (xlsList (read_listings st)) \<and> candidate lc f \<and> keyOf c (fname f) \<in> P \<and>
    hasKnfo lc (read_listings st) (fname f) \<and> \<not> hasMeta lc (read_listings st) (fname f)"
  then show "\<exists>it\<in>set (scanCtx lc c st P). name it = fname f"
    using scan_knfo_without_meta[of f st lc c P] by blast
next
  fix it assume "\<not> knfo_list_fails st \<and> \<not> meta_list_fails st" and "it \<in> set (scanCtx lc c st P)"
  then show "\<not> (hasKnfo lc (stored st) (name it) \<and> hasMeta lc (stored st) (name it))"
    using scan_never_both[of it lc c st P] listed_artifacts(1,2)[of st lc "name it"] by blast
next
  assume l: "\<not> knfo_list_fails st \<and> \<not> meta_list_fails st"
    and h: "\<not> excel_list_fails st \<and> f \<in> set (excel_files st) \<and> candidate lc f \<and>
       keyOf c (fname f) \<in> P \<and> hasKnfo lc (stored st) (fname f) \<and>
       \<not> hasMeta lc (stored st) (fname f)"
  from l h have "f \<in> set (xlsList (read_listings st))"
    and "hasKnfo lc (read_listings st) (fname f)" and "\<not> hasMeta lc (read_listings st) (fname f)"
    by (simp_all add: listed_artifacts)
  with h show "\<exists>it\<in>set (scanCtx lc c st P). name it = fname f"
    using scan_knfo_without_meta[of f st lc c P] by blast
qed

lemma qget_update: "qget (AList.update c v qs) d = (if d = c then v else qget qs d)"
  by (simp add: qget_def update_conv')

lemma scan_ctxs_result:
  "scan_ctxs w P cs tmp = Returned tmp' \<Longrightarrow>
   (\<forall>c\<in>set cs. \<exists>st. remote w c = Returned st \<and> qget tmp' c = scanCtx (toLowerCase w) c st P) \<and>
   (\<forall>c. c \<notin> set cs \<longrightarrow> qget tmp' c = qget tmp c)"
proof (induction cs arbitrary: tmp)
  case Nil
  then show ?case by simp
next
  case (Cons c cs)
  then obtain st where l: "remote w c = Returned st"
    and r: "scan_ctxs w P cs (AList.update c (scanCtx (toLowerCase w) c st P) tmp) = Returned tmp'"
    by (auto split: outcome.splits)
  from Cons.IH[OF r] l show ?case
    by (auto simp: qget_update) (metis outcome.inject(1))+
qed

lemma qget_rebuild:
  "qget (foldl (\<lambda>qs c. AList.update c (g c) qs) q0 cs) d = (if d \<in> set cs then g d else qget q0 d)"
  by (induction cs arbitrary: q0) (auto simp: qget_update)

lemma scanCtx_descending: "sorted_wrt (\<ge>) (map sizeMB (scanCtx lc c st P))"
proof -
  have "sorted (map (\<lambda>i. - sizeMB i) (scanCtx lc c st P))"
    unfolding scanCtx_def Let_def by (rule sorted_sort_key)
  then show ?thesis by (simp add: sorted_wrt_map)
qed

text \<open>
  Claim C8, as the code has it. A \<open>scanAll\<close> that returns while no job at all is in flight
  changes only the queues, and gives every configured source the fresh result of
  \<open>scanCtx\<close>, in descending order of size; while any job is in flight, of whatever source,
  it leaves the state, and so every queue, unchanged. The skip is global.
\<close>

theorem scanAll_rebuild:
  "scanAll cfg w s = (Returned (), s') \<longrightarrow>
     (inFlight s = [] \<longrightarrow>
        s' = s\<lparr>queues := queues s'\<rparr> \<and>
        (\<forall>c\<in>set (CTXS cfg). \<exists>st. remote w c = Returned st \<and>
            qget (queues s') c = scanCtx (toLowerCase w) c st (processedOK s) \<and>
            sorted_wrt (\<ge>) (map sizeMB (qget (queues s') c)))) \<and>
     (inFlight s \<noteq> [] \<longrightarrow> s' = s)"
proof (intro impI conjI)
  assume a: "scanAll cfg w s = (Returned (), s')"
  then obtain tmp where tmp: "scan_ctxs w (processedOK s) (CTXS cfg) [] = Returned tmp"
    by (auto simp: scanAll_def split: outcome.splits)
  { assume "inFlight s \<noteq> []"
    with a tmp show "s' = s" by (simp add: scanAll_def) }
  assume e: "inFlight s = []"
  with a tmp have s': "s' = s\<lparr>queues := foldl (\<lambda>qs c. AList.update c (qget tmp c) qs) [] (CTXS cfg)\<rparr>"
    by (simp add: scanAll_def)
  then show "s' = s\<lparr>queues := queues s'\<rparr>" by simp
  show "\<forall>c\<in>set (CTXS cfg). \<exists>st. remote w c = Returned st \<and>
            qget (queues s') c = scanCtx (toLowerCase w) c st (processedOK s) \<and>
            sorted_wrt (\<ge>) (map sizeMB (qget (queues s') c))"
  proof
    fix c assume c: "c \<in> set (CTXS cfg)"
    with scan_ctxs_result[OF tmp] obtain st where
      l: "remote w c = Returned st" "qget tmp c = scanCtx (toLowerCase w) c st (processedOK s)"
      by blast
    have "qget (queues s') c = scanCtx (toLowerCase w) c st (processedOK s)"
      using c l by (simp add: s' qget_rebuild)
    with l scanCtx_descending[of "toLowerCase w" c st "processedOK s"]
    show "\<exists>st. remote w c = Returned st \<and>
            qget (queues s') c = scanCtx (toLowerCase w) c st (processedOK s) \<and>
            sorted_wrt (\<ge>) (map sizeMB (qget (queues s') c))" by auto
  qed
qed

lemma sample_read: "read_listings sample_store = sample_listing" "stored sample_store = sample_listing"
  by (simp_all add: read_listings_def stored_def sample_store_def)

lemma knfo_unlisted_read:
  "read_listings knfo_unlisted = sample_listing\<lparr>knfoList := []\<rparr>"
  "stored knfo_unlisted = sample_listing"
  by (simp_all add: read_listings_def stored_def sample_store_def knfo_unlisted_def)

lemma sample_xls:
  "xlsList sample_listing =
     [\<lparr>ftype = ''-'', fname = ''MB51_a.xlsx'', fsize = 3145728\<rparr>,
      \<lparr>ftype = ''-'', fname = ''KOB1_B.XLSX'', fsize = 31457280\<rparr>,
      \<lparr>ftype = ''-'', fname = ''CJI3_done.xlsx'', fsize = 5\<rparr>]"
  by (simp add: sample_listing_def)

lemma sample_candidates:
  "candidate ascii_lower \<lparr>ftype = ''-'', fname = ''MB51_a.xlsx'', fsize = n\<rparr>"
  "candidate ascii_lower \<lparr>ftype = ''-'', fname = ''KOB1_B.XLSX'', fsize = n\<rparr>"
  "candidate ascii_lower \<lparr>ftype = ''-'', fname = ''CJI3_done.xlsx'', fsize = n\<rparr>"
  by (simp_all add: candidate_def ascii_lower_def lower_char_def endsWith_def suffix_def PATTERNS_def)

lemma sample_meta:
  "listAllMetaFiles ascii_lower (metaFiles sample_listing) = [''cji3_done.meta'']"
  by (simp add: sample_listing_def listAllMetaFiles_def basename_def ascii_lower_def
      lower_char_def endsWith_def suffix_def)

lemma sample_knfo:
  "map (\<lambda>f. ascii_lower (fname f)) (knfoList sample_listing) = [''kob1_b.knfo'', ''cji3_done.knfo'']"
  by (simp add: sample_listing_def ascii_lower_def lower_char_def)

lemma sample_artifacts:
  "\<not> hasKnfo ascii_lower sample_listing ''MB51_a.xlsx''"
  "\<not> hasMeta ascii_lower sample_listing ''MB51_a.xlsx''"
  "hasKnfo ascii_lower sample_listing ''KOB1_B.XLSX''"
  "\<not> hasMeta ascii_lower sample_listing ''KOB1_B.XLSX''"
  "hasKnfo ascii_lower sample_listing ''CJI3_done.xlsx''"
  "hasMeta ascii_lower sample_listing ''CJI3_done.xlsx''"
  unfolding hasKnfo_def hasMeta_def sample_meta sample_knfo
  by (simp_all add: baseLower_def ascii_lower_def lower_char_def)

lemma unlisted_artifacts:
  "\<not> hasKnfo ascii_lower (sample_listing\<lparr>knfoList := []\<rparr>) n"
  "hasMeta ascii_lower (sample_listing\<lparr>knfoList := []\<rparr>) n = hasMeta ascii_lower sample_listing n"
  by (simp_all add: hasKnfo_def hasMeta_def)

lemma sample_scan:
  "map name (scanCtx ascii_lower c sample_store {}) = [''KOB1_B.XLSX'', ''MB51_a.xlsx'']"
  "map name (scanCtx ascii_lower ''CAN'' sample_store {''CAN:KOB1_B.XLSX'', ''CAN:MB51_a.xlsx''}) =
     [''KOB1_B.XLSX'']"
  by (simp_all add: scanCtx_def Let_def sample_read enqueued_def sample_xls sample_candidates
      sample_artifacts keyOf_def)

lemma unlisted_scan:
  "map name (scanCtx ascii_lower ''CAN'' knfo_unlisted {}) =
     [''KOB1_B.XLSX'', ''MB51_a.xlsx'', ''CJI3_done.xlsx'']"
  "map name (scanCtx ascii_lower ''CAN'' knfo_unlisted {''CAN:KOB1_B.XLSX'', ''CAN:MB51_a.xlsx''}) =
     [''CJI3_done.xlsx'']"
  by (simp_all add: scanCtx_def Let_def knfo_unlisted_read enqueued_def sample_xls sample_candidates
      sample_artifacts unlisted_artifacts keyOf_def)

text \<open>
  Claim C10 as stated fails when a listing fails. At a time when the listing of the KNFO
  directory fails, the Excel file that has both its KNFO and its META on the store is
  enqueued, and the processed file that has its KNFO and no META on the store is not.
\<close>

theorem scan_ignores_artifacts_it_cannot_list:
  "hasKnfo ascii_lower (stored knfo_unlisted) ''CJI3_done.xlsx'' \<and>
   hasMeta ascii_lower (stored knfo_unlisted) ''CJI3_done.xlsx'' \<and>
   ''CJI3_done.xlsx'' \<in> set (map name (scanCtx ascii_lower ''CAN'' knfo_unlisted {})) \<and>
   hasKnfo ascii_lower (stored knfo_unlisted) ''KOB1_B.XLSX'' \<and>
   \<not> hasMeta ascii_lower (stored knfo_unlisted) ''KOB1_B.XLSX'' \<and>
   keyOf ''CAN'' ''KOB1_B.XLSX'' \<in> {''CAN:KOB1_B.XLSX'', ''CAN:MB51_a.xlsx''} \<and>
   ''KOB1_B.XLSX'' \<notin>
     set (map name (scanCtx ascii_lower ''CAN'' knfo_unlisted {''CAN:KOB1_B.XLSX'', ''CAN:MB51_a.xlsx''}))"
  unfolding unlisted_scan knfo_unlisted_read
  by (simp add: sample_artifacts keyOf_def)

theorem scan_artifacts_override_witness:
  "\<not> knfo_list_fails sample_store \<and> \<not> meta_list_fails sample_store \<and>
   \<not> excel_list_fails sample_store \<and>
   keyOf ''CAN'' ''KOB1_B.XLSX'' \<in> {''CAN:KOB1_B.XLSX'', ''CAN:MB51_a.xlsx''} \<and>
   hasKnfo ascii_lower (stored sample_store) ''KOB1_B.XLSX'' \<and>
   \<not> hasMeta ascii_lower (stored sample_store) ''KOB1_B.XLSX'' \<and>
   (\<exists>it\<in>set (scanCtx ascii_lower ''CAN'' sample_store {''CAN:KOB1_B.XLSX'', ''CAN:MB51_a.xlsx''}).
      name it = ''KOB1_B.XLSX'') \<and>
   hasKnfo ascii_lower (stored sample_store) ''CJI3_done.xlsx'' \<and>
   hasMeta ascii_lower (stored sample_store) ''CJI3_done.xlsx'' \<and>
   ''CJI3_done.xlsx'' \<notin> set (map name (scanCtx ascii_lower ''CAN'' sample_store {}))"
proof -
  let ?f = "\<lparr>ftype = ''-'', fname = ''KOB1_B.XLSX'', fsize = 31457280\<rparr>"
  let ?P = "{''CAN:KOB1_B.XLSX'', ''CAN:MB51_a.xlsx''}"
  have ok: "\<not> knfo_list_fails sample_store" "\<not> meta_list_fails sample_store"
    "\<not> excel_list_fails sample_store"
    by (simp_all add: sample_store_def)
  have 1: "?f \<in> set (excel_files sample_store)" by (simp add: sample_store_def sample_xls)
  have 2: "candidate ascii_lower ?f" by (rule sample_candidates)
  have 3: "keyOf ''CAN'' (fname ?f) \<in> ?P" by (simp add: keyOf_def)
  have 4: "hasKnfo ascii_lower (stored sample_store) (fname ?f)"
    "\<not> hasMeta ascii_lower (stored sample_store) (fname ?f)"
    by (simp_all add: sample_read sample_artifacts)
  from scan_artifacts_override[of ascii_lower "''CAN''" sample_store ?P ?f] ok 1 2 3 4
  have a: "\<exists>it\<in>set (scanCtx ascii_lower ''CAN'' sample_store ?P). name it = ''KOB1_B.XLSX''"
    by simp
  have 5: "hasKnfo ascii_lower (stored sample_store) ''CJI3_done.xlsx''"
    "hasMeta ascii_lower (stored sample_store) ''CJI3_done.xlsx''"
    by (simp_all add: sample_read sample_artifacts)
  from scan_artifacts_override[of ascii_lower "''CAN''" sample_store "{}"] ok 5
  have b: "''CJI3_done.xlsx'' \<notin> set (map name (scanCtx ascii_lower ''CAN'' sample_store {}))" by auto
  from a b ok 3 4 5 show ?thesis by simp
qed

text \<open>
  Claim C8 as stated fails: with a job of source CAN in flight and none of source CAS, a
  scan that finds two pending files for CAS leaves the queue of CAS empty.
\<close>

theorem scanAll_skip_is_global:
  "inFlight ((start two_sources)\<lparr>inFlight := [''CAN:x.xlsx'']\<rparr>) = [''CAN:x.xlsx''] \<and>
   map name (scanCtx (toLowerCase sample_world) ''CAS'' sample_store {}) =
     [''KOB1_B.XLSX'', ''MB51_a.xlsx''] \<and>
   fst (scanAll two_sources sample_world ((start two_sources)\<lparr>inFlight := [''CAN:x.xlsx'']\<rparr>)) = Returned () \<and>
   qget (queues (snd (scanAll two_sources sample_world ((start two_sources)\<lparr>inFlight := [''CAN:x.xlsx'']\<rparr>)))) ''CAS'' = []"
proof -
  have lw: "toLowerCase sample_world = ascii_lower" by (simp add: sample_world_def)
  show ?thesis
    unfolding lw
    by (simp add: sample_scan scanAll_def two_sources_def default_config_def sample_world_def
        start_def qget_update) (simp add: qget_def)
qed

theorem scanAll_rebuild_witness:
  "map name (qget (queues (snd (scanAll two_sources sample_world (start two_sources)))) ''CAS'') =
     [''KOB1_B.XLSX'', ''MB51_a.xlsx''] \<and>
   snd (scanAll two_sources sample_world ((start two_sources)\<lparr>inFlight := [''CAN:x.xlsx'']\<rparr>)) =
     (start two_sources)\<lparr>inFlight := [''CAN:x.xlsx'']\<rparr>"
proof -
  have r1: "fst (scanAll two_sources sample_world (start two_sources)) = Returned ()"
    by (simp add: scanAll_def two_sources_def default_config_def sample_world_def)
  have r2: "fst (scanAll two_sources sample_world ((start two_sources)\<lparr>inFlight := [''CAN:x.xlsx'']\<rparr>)) = Returned ()"
    by (simp add: scanAll_def two_sources_def default_config_def sample_world_def)
  have e1: "scanAll two_sources sample_world (start two_sources) =
      (Returned (), snd (scanAll two_sources sample_world (start two_sources)))"
    using r1 by (metis prod.collapse)
  have e2: "scanAll two_sources sample_world ((start two_sources)\<lparr>inFlight := [''CAN:x.xlsx'']\<rparr>) =
      (Returned (), snd (scanAll two_sources sample_world ((start two_sources)\<lparr>inFlight := [''CAN:x.xlsx'']\<rparr>)))"
    using r2 by (metis prod.collapse)
  have i1: "inFlight (start two_sources) = []" by (simp add: start_def)
  have c: "''CAS'' \<in> set (CTXS two_sources)" by (simp add: two_sources_def)
  have l: "remote sample_world ''CAS'' = Returned sample_store" by (simp add: sample_world_def)
  have lw: "toLowerCase sample_world = ascii_lower" by (simp add: sample_world_def)
  have p: "processedOK (start two_sources) = {}" by (simp add: start_def)
  from scanAll_rebuild[of two_sources sample_world "start two_sources"
      "snd (scanAll two_sources sample_world (start two_sources))"] e1 i1 c l lw p
    sample_scan(1)[of "''CAS''"]
  have 1: "map name (qget (queues (snd (scanAll two_sources sample_world (start two_sources)))) ''CAS'') =
     [''KOB1_B.XLSX'', ''MB51_a.xlsx'']" by auto
  from scanAll_rebuild[of two_sources sample_world "(start two_sources)\<lparr>inFlight := [''CAN:x.xlsx'']\<rparr>"
      "snd (scanAll two_sources sample_world ((start two_sources)\<lparr>inFlight := [''CAN:x.xlsx'']\<rparr>))"] e2
  have 2: "snd (scanAll two_sources sample_world ((start two_sources)\<lparr>inFlight := [''CAN:x.xlsx'']\<rparr>)) =
     (start two_sources)\<lparr>inFlight := [''CAN:x.xlsx'']\<rparr>" by simp
  from 1 2 show ?thesis by simp
qed

lemma pick_large_Some:
  "c \<in> set cs \<Longrightarrow> large_head cfg qs c \<Longrightarrow>
   \<exists>c' it q. c' \<in> set cs \<and> qget qs c' = it # q \<and> sizeMB it \<ge> TH_MB cfg \<and>
     pick_large cfg cs qs = Some ([\<lparr>ctx = c', pfile = name it, large = True\<rparr>], AList.update c' q qs)"
proof (induction cs)
  case Nil
  then show ?case by simp
next
  case (Cons d cs)
  show ?case
  proof (cases "large_head cfg qs d")
    case True
    then show ?thesis by (auto simp: large_head_def split: list.splits)
  next
    case False
    then have "pick_large cfg (d # cs) qs = pick_large cfg cs qs"
      by (auto simp: large_head_def split: list.splits)
    moreover from False Cons.prems have "c \<in> set cs" by auto
    ultimately show ?thesis using Cons.IH Cons.prems(2) by auto
  qed
qed

lemma pick_large_None:
  "\<forall>c\<in>set cs. \<not> large_head cfg qs c \<Longrightarrow> pick_large cfg cs qs = None"
  by (induction cs) (auto simp: large_head_def split: list.splits)

lemma take_small_eq:
  "take_small cfg mx c q picks =
     (let n = min (mx - length picks) (length (takeWhile (\<lambda>it. \<not> sizeMB it \<ge> TH_MB cfg) q))
      in (drop n q, picks @ map (small_pick c) (take n q)))"
proof (induction q arbitrary: picks)
  case Nil
  then show ?case by simp
next
  case (Cons it q)
  show ?case
  proof (cases "length picks < mx")
    case False
    then show ?thesis by simp
  next
    case True
    then have "mx - length picks = Suc (mx - Suc (length picks))" by simp
    then show ?thesis using True Cons.IH[of "picks @ [\<lparr>ctx = c, pfile = name it, large = False\<rparr>]"]
      by (simp add: Let_def small_pick_def)
  qed
qed

lemma take_min_takeWhile:
  "take (min m (length (takeWhile P q))) q = take m (takeWhile P q)"
  by (induction q arbitrary: m) (auto simp: take_Cons split: nat.splits)

lemma take_small_picks:
  "take_small cfg mx c (qget qs c) picks = (q', picks') \<Longrightarrow>
   picks' = picks @ take (mx - length picks) (small_run cfg qs c) \<and>
   (length picks' < mx \<longrightarrow> picks' = picks @ small_run cfg qs c \<and>
      (case q' of [] \<Rightarrow> True | it # r \<Rightarrow> sizeMB it \<ge> TH_MB cfg))"
proof -
  assume a: "take_small cfg mx c (qget qs c) picks = (q', picks')"
  let ?tw = "takeWhile (\<lambda>it. \<not> sizeMB it \<ge> TH_MB cfg) (qget qs c)"
  let ?n = "min (mx - length picks) (length ?tw)"
  from a have q': "q' = drop ?n (qget qs c)" and p': "picks' = picks @ map (small_pick c) (take ?n (qget qs c))"
    by (simp_all add: take_small_eq Let_def)
  have 1: "picks' = picks @ take (mx - length picks) (small_run cfg qs c)"
    by (simp add: p' take_min_takeWhile small_run_def take_map)
  { assume lt: "length picks' < mx"
    have "?n \<le> length (qget qs c)"
      using length_takeWhile_le[of "\<lambda>it. \<not> sizeMB it \<ge> TH_MB cfg" "qget qs c"] by simp
    then have "length picks' = length picks + ?n" using p' by simp
    with lt have "?n < mx - length picks" by simp
    then have n: "?n = length ?tw" by (simp add: min_def split: if_splits)
    have "picks' = picks @ small_run cfg qs c"
      using p' unfolding n by (simp add: small_run_def) (metis takeWhile_eq_take)
    moreover have "q' = dropWhile (\<lambda>it. \<not> sizeMB it \<ge> TH_MB cfg) (qget qs c)"
      using q' unfolding n by (simp add: dropWhile_eq_drop)
    then have "case q' of [] \<Rightarrow> True | it # r \<Rightarrow> sizeMB it \<ge> TH_MB cfg"
      by (auto split: list.splits simp: dropWhile_eq_Cons_conv)
    ultimately have "picks' = picks @ small_run cfg qs c \<and>
      (case q' of [] \<Rightarrow> True | it # r \<Rightarrow> sizeMB it \<ge> TH_MB cfg)" by simp }
  with 1 show ?thesis by blast
qed

lemma pick_small_eq:
  assumes "distinct cs" and "length picks \<le> mx"
    and "pick_small cfg mx cs qs picks = (picks', qs')"
  shows "picks' = picks @ take (mx - length picks) (concat (map (small_run cfg qs) cs)) \<and>
         (length picks' = mx \<or> (\<forall>c\<in>set cs. qget qs' c = [] \<or> large_head cfg qs' c)) \<and>
         (\<forall>d. d \<notin> set cs \<longrightarrow> qget qs' d = qget qs d)"
  using assms
proof (induction cs arbitrary: qs picks)
  case Nil
  then show ?case by simp
next
  case (Cons c cs)
  obtain q1 p1 where t: "take_small cfg mx c (qget qs c) picks = (q1, p1)" by force
  note ts = take_small_picks[OF t]
  let ?m = "mx - length picks"
  let ?qs1 = "AList.update c q1 qs"
  have p1: "p1 = picks @ take ?m (small_run cfg qs c)" using ts by blast
  have len1: "length p1 \<le> mx" using p1 Cons.prems(2) by simp
  show ?case
  proof (cases "length p1 = mx")
    case True
    then have res: "picks' = p1" "qs' = ?qs1" using Cons.prems(3) t by simp_all
    have "length p1 = length picks + min ?m (length (small_run cfg qs c))"
      by (subst p1) simp
    with True Cons.prems(2) have "?m \<le> length (small_run cfg qs c)" by simp
    then have "take ?m (small_run cfg qs c @ concat (map (small_run cfg qs) cs)) =
               take ?m (small_run cfg qs c)" by simp
    with p1 have "picks' = picks @ take ?m (concat (map (small_run cfg qs) (c # cs)))"
      by (simp add: res)
    moreover have "length picks' = mx" using True res by simp
    moreover have "\<forall>d. d \<notin> set (c # cs) \<longrightarrow> qget qs' d = qget qs d"
      by (simp add: res qget_update)
    ultimately show ?thesis by blast
  next
    case False
    then have lt: "length p1 < mx" using len1 by simp
    then have full: "p1 = picks @ small_run cfg qs c"
      and hd: "case q1 of [] \<Rightarrow> True | it # r \<Rightarrow> sizeMB it \<ge> TH_MB cfg" using ts by blast+
    from False have rec: "pick_small cfg mx cs ?qs1 p1 = (picks', qs')"
      using Cons.prems(3) t by simp
    from Cons.prems(1) have d: "distinct cs" and c: "c \<notin> set cs" by simp_all
    note IH = Cons.IH[OF d len1 rec]
    have same: "map (small_run cfg ?qs1) cs = map (small_run cfg qs) cs"
      using c by (intro map_cong) (auto simp: small_run_def qget_update)
    have "length p1 = length picks + length (small_run cfg qs c)" by (simp add: full)
    with lt have short: "length (small_run cfg qs c) \<le> ?m" by simp
    have ih1: "picks' = p1 @ take (mx - length p1) (concat (map (small_run cfg ?qs1) cs))"
      using IH by blast
    have m: "mx - length p1 = ?m - length (small_run cfg qs c)" by (simp add: full)
    have "take ?m (concat (map (small_run cfg qs) (c # cs))) =
          small_run cfg qs c @ take (?m - length (small_run cfg qs c)) (concat (map (small_run cfg qs) cs))"
      using short by simp
    then have 1: "picks' = picks @ take ?m (concat (map (small_run cfg qs) (c # cs)))"
      unfolding ih1 same m full by simp
    have ih3: "\<forall>d. d \<notin> set cs \<longrightarrow> qget qs' d = qget ?qs1 d" using IH by blast
    have ih2: "length picks' = mx \<or> (\<forall>d\<in>set cs. qget qs' d = [] \<or> large_head cfg qs' d)"
      using IH by blast
    have qc: "qget qs' c = q1" using ih3 c by (simp add: qget_update)
    have "qget qs' c = [] \<or> large_head cfg qs' c"
      using hd by (cases q1) (simp_all add: large_head_def qc)
    with ih2 have 2: "length picks' = mx \<or> (\<forall>d\<in>set (c # cs). qget qs' d = [] \<or> large_head cfg qs' d)"
      by auto
    have 3: "\<forall>d. d \<notin> set (c # cs) \<longrightarrow> qget qs' d = qget qs d"
      using ih3 by (simp add: qget_update)
    from 1 2 3 show ?thesis by blast
  qed
qed

text \<open>
  Claim C7, as the code has it. When no queue head is large (and the sources are
  distinct), the batch is the sources drained in order: all the leading small jobs of
  the first source before any of the second, cut at the capacity; and picking stops with
  the capacity reached or with every source's queue empty or headed by a large job.
  There is no alternation between sources.
\<close>

theorem pickBatch_drains_sources_in_order:
  assumes "distinct (CTXS cfg)" and "\<forall>c\<in>set (CTXS cfg). \<not> large_head cfg qs c"
  shows "fst (pickBatch cfg mx qs) = drain_in_order cfg mx qs \<and>
         (length (fst (pickBatch cfg mx qs)) = mx \<or>
          (\<forall>c\<in>set (CTXS cfg). qget (snd (pickBatch cfg mx qs)) c = [] \<or>
                                large_head cfg (snd (pickBatch cfg mx qs)) c))"
proof -
  have pb: "pickBatch cfg mx qs = pick_small cfg mx (CTXS cfg) qs []"
    using pick_large_None[OF assms(2)] by (simp add: pickBatch_def)
  obtain picks' qs' where r: "pick_small cfg mx (CTXS cfg) qs [] = (picks', qs')" by force
  from pick_small_eq[OF assms(1) _ r, simplified]
  have 1: "picks' = take mx (concat (map (small_run cfg qs) (CTXS cfg)))"
    and 2: "length picks' = mx \<or> (\<forall>c\<in>set (CTXS cfg). qget qs' c = [] \<or> large_head cfg qs' c)"
    by blast+
  from 1 have "fst (pickBatch cfg mx qs) = drain_in_order cfg mx qs"
    by (simp add: pb r drain_in_order_def)
  moreover from 2 have "length (fst (pickBatch cfg mx qs)) = mx \<or>
          (\<forall>c\<in>set (CTXS cfg). qget (snd (pickBatch cfg mx qs)) c = [] \<or>
                                large_head cfg (snd (pickBatch cfg mx qs)) c)"
    by (simp add: pb r)
  ultimately show ?thesis by blast
qed

text \<open>
  Claim C7 as stated fails: with two small jobs queued for CAN, one for CAS and a
  capacity of 2, the batch is the two jobs of CAN, and the queue of CAS is not visited;
  alternation would take one job of each source.
\<close>

theorem pickBatch_exhausts_first_source:
  "\<not> large_head two_sources alternation_example ''CAN'' \<and>
   \<not> large_head two_sources alternation_example ''CAS'' \<and>
   pickBatch two_sources 2 alternation_example =
     ([\<lparr>ctx = ''CAN'', pfile = ''a.xlsx'', large = False\<rparr>,
       \<lparr>ctx = ''CAN'', pfile = ''b.xlsx'', large = False\<rparr>],
      [(''CAN'', []), (''CAS'', [\<lparr>name = ''c.xlsx'', sizeMB = 2\<rparr>])])"
  by (simp add: large_head_def qget_def pickBatch_def two_sources_def default_config_def
      alternation_example_def)

theorem pickBatch_drains_sources_in_order_witness:
  "distinct (CTXS two_sources) \<and>
   fst (pickBatch two_sources 2 alternation_example) = drain_in_order two_sources 2 alternation_example \<and>
   drain_in_order two_sources 2 alternation_example =
     [\<lparr>ctx = ''CAN'', pfile = ''a.xlsx'', large = False\<rparr>,
      \<lparr>ctx = ''CAN'', pfile = ''b.xlsx'', large = False\<rparr>]"
proof -
  have d: "distinct (CTXS two_sources)" by (simp add: two_sources_def)
  have n: "\<forall>c\<in>set (CTXS two_sources). \<not> large_head two_sources alternation_example c"
    by (simp add: large_head_def qget_def two_sources_def default_config_def alternation_example_def)
  have e: "drain_in_order two_sources 2 alternation_example =
     [\<lparr>ctx = ''CAN'', pfile = ''a.xlsx'', large = False\<rparr>,
      \<lparr>ctx = ''CAN'', pfile = ''b.xlsx'', large = False\<rparr>]"
    by (simp add: drain_in_order_def small_run_def small_pick_def qget_def two_sources_def
        default_config_def alternation_example_def)
  from pickBatch_drains_sources_in_order[OF d n, of 2] d e show ?thesis by simp
qed

lemma tick_large_in_flight: "list_ex snd (flags s) \<Longrightarrow> tick cfg w s = s"
  by (cases "ticking s") (simp_all add: tick_def tick_body_def)

lemma pickBatch_large:
  assumes "c \<in> set (CTXS cfg)" and "large_head cfg qs c"
  shows "\<exists>c' it q. c' \<in> set (CTXS cfg) \<and> qget qs c' = it # q \<and> sizeMB it \<ge> TH_MB cfg \<and>
           fst (pickBatch cfg mx qs) = [\<lparr>ctx = c', pfile = name it, large = True\<rparr>] \<and>
           qget (snd (pickBatch cfg mx qs)) c' = q \<and>
           (\<forall>d. d \<noteq> c' \<longrightarrow> qget (snd (pickBatch cfg mx qs)) d = qget qs d)"
proof -
  from pick_large_Some[OF assms] obtain c' it q where
    h: "c' \<in> set (CTXS cfg)" "qget qs c' = it # q" "sizeMB it \<ge> TH_MB cfg"
       "pick_large cfg (CTXS cfg) qs = Some ([\<lparr>ctx = c', pfile = name it, large = True\<rparr>], AList.update c' q qs)"
    by blast
  then have "pickBatch cfg mx qs = ([\<lparr>ctx = c', pfile = name it, large = True\<rparr>], AList.update c' q qs)"
    by (simp add: pickBatch_def)
  with h(1-3) show ?thesis by (auto simp: qget_update)
qed

lemma example_first_tick:
  "spawned (tick default_config w exclusive_example) = [(''CAN'', ''big.xlsx'')] \<and>
   queues (tick default_config w exclusive_example) =
     [(''CAN'', [\<lparr>name = ''two.xlsx'', sizeMB = 2\<rparr>, \<lparr>name = ''three.xlsx'', sizeMB = 3\<rparr>])] \<and>
   flags (tick default_config w exclusive_example) = [] \<and>
   inFlight (tick default_config w exclusive_example) = [] \<and>
   \<not> ticking (tick default_config w exclusive_example) \<and>
   failureCount (tick default_config w exclusive_example) ''CAN:two.xlsx'' = 0 \<and>
   failureCount (tick default_config w exclusive_example) ''CAN:three.xlsx'' = 0"
  by (simp add: tick_def tick_body_def scan_phase_def queuesEmpty_def exclusive_example_def start_def
      default_config_def pickBatch_def qget_def processBatch_def start_job_def finish_job_def
      job_finally_def failureCount_def keyOf_def Let_def split: outcome.splits)

lemma large_in_flight_eq:
  "large_in_flight =
     exclusive_example
       \<lparr>queues := [(''CAN'', [\<lparr>name = ''two.xlsx'', sizeMB = 2\<rparr>, \<lparr>name = ''three.xlsx'', sizeMB = 3\<rparr>])],
        inFlight := [''CAN:big.xlsx''], flags := [(''CAN:big.xlsx'', True)],
        spawned := [(''CAN'', ''big.xlsx'')]\<rparr>"
  by (simp add: large_in_flight_def exclusive_example_def start_def default_config_def pickBatch_def
      qget_def start_job_def failureCount_def keyOf_def Let_def)

lemma example_second_tick:
  assumes "queues s = [(''CAN'', [\<lparr>name = ''two.xlsx'', sizeMB = 2\<rparr>, \<lparr>name = ''three.xlsx'', sizeMB = 3\<rparr>])]"
    and "flags s = []" and "inFlight s = []" and "\<not> ticking s"
    and "failureCount s ''CAN:two.xlsx'' = 0" and "failureCount s ''CAN:three.xlsx'' = 0"
  shows "spawned (tick default_config w s) = spawned s @ [(''CAN'', ''two.xlsx''), (''CAN'', ''three.xlsx'')]"
proof -
  have pb: "pickBatch default_config 5 (queues s) =
     ([\<lparr>ctx = ''CAN'', pfile = ''two.xlsx'', large = False\<rparr>,
       \<lparr>ctx = ''CAN'', pfile = ''three.xlsx'', large = False\<rparr>], [(''CAN'', [])])"
    by (simp add: assms(1) pickBatch_def default_config_def qget_def)
  have sj: "start_jobs default_config
       [\<lparr>ctx = ''CAN'', pfile = ''two.xlsx'', large = False\<rparr>,
        \<lparr>ctx = ''CAN'', pfile = ''three.xlsx'', large = False\<rparr>] (s\<lparr>ticking := True, queues := [(''CAN'', [])]\<rparr>) =
     ([(\<lparr>ctx = ''CAN'', pfile = ''two.xlsx'', large = False\<rparr>, length (spawned s)),
       (\<lparr>ctx = ''CAN'', pfile = ''three.xlsx'', large = False\<rparr>, Suc (length (spawned s)))],
      s\<lparr>ticking := True, queues := [(''CAN'', [])],
        inFlight := [''CAN:two.xlsx'', ''CAN:three.xlsx''],
        flags := [(''CAN:two.xlsx'', False), (''CAN:three.xlsx'', False)],
        spawned := spawned s @ [(''CAN'', ''two.xlsx''), (''CAN'', ''three.xlsx'')]\<rparr>)"
    using assms(2,3,5,6)
    by (simp add: start_job_def failureCount_def keyOf_def Let_def default_config_def)
  have fin: "spawned (finish_job cfg w j t) = spawned t" for cfg j t
    by (simp add: finish_job_def job_finally_def Let_def split: outcome.splits)
  have t: "tick default_config w s =
      (processBatch default_config w
       [\<lparr>ctx = ''CAN'', pfile = ''two.xlsx'', large = False\<rparr>,
        \<lparr>ctx = ''CAN'', pfile = ''three.xlsx'', large = False\<rparr>] (s\<lparr>ticking := True, queues := [(''CAN'', [])]\<rparr>))\<lparr>ticking := False\<rparr>"
    using assms(2,3,4) pb
    by (simp add: tick_def tick_body_def scan_phase_def assms(1) queuesEmpty_def Let_def)
      (simp add: default_config_def)
  show ?thesis unfolding t processBatch_def sj by (simp add: fin)
qed

text \<open>
  Claim C4. If the queue head of a configured source is large, the batch is exactly one
  job, the large head of a source, flagged large and dequeued from that source, and the
  queue of every other source is as before; a tick that finds a job flagged large in
  flight changes nothing; and for the queue \<open>[100MB, 2MB, 3MB]\<close> with threshold 20 and
  \<open>PARALLEL_LIMIT\<close> 5, whatever the workers do, the first tick starts the 100MB job
  only and leaves the other two queued, a tick while that job is in flight does nothing,
  and the next tick after its end starts the 2MB and 3MB jobs together.
\<close>

theorem large_job_exclusive:
  "(c \<in> set (CTXS cfg) \<and> large_head cfg qs c \<longrightarrow>
      (\<exists>c' it q. c' \<in> set (CTXS cfg) \<and> qget qs c' = it # q \<and> sizeMB it \<ge> TH_MB cfg \<and>
         fst (pickBatch cfg mx qs) = [\<lparr>ctx = c', pfile = name it, large = True\<rparr>] \<and>
         qget (snd (pickBatch cfg mx qs)) c' = q \<and>
         (\<forall>d. d \<noteq> c' \<longrightarrow> qget (snd (pickBatch cfg mx qs)) d = qget qs d))) \<and>
   (list_ex snd (flags s) \<longrightarrow> tick cfg w s = s) \<and>
   spawned (tick default_config w1 exclusive_example) = [(''CAN'', ''big.xlsx'')] \<and>
   qget (queues (tick default_config w1 exclusive_example)) ''CAN'' =
     [\<lparr>name = ''two.xlsx'', sizeMB = 2\<rparr>, \<lparr>name = ''three.xlsx'', sizeMB = 3\<rparr>] \<and>
   inFlight large_in_flight = [''CAN:big.xlsx''] \<and>
   tick default_config w2 large_in_flight = large_in_flight \<and>
   spawned (tick default_config w2 (tick default_config w1 exclusive_example)) =
     [(''CAN'', ''big.xlsx''), (''CAN'', ''two.xlsx''), (''CAN'', ''three.xlsx'')]"
proof -
  note f = example_first_tick[of w1]
  have 1: "spawned (tick default_config w1 exclusive_example) = [(''CAN'', ''big.xlsx'')]"
    using f by blast
  have 2: "qget (queues (tick default_config w1 exclusive_example)) ''CAN'' =
     [\<lparr>name = ''two.xlsx'', sizeMB = 2\<rparr>, \<lparr>name = ''three.xlsx'', sizeMB = 3\<rparr>]"
    using f by (simp add: qget_def)
  have 3: "inFlight large_in_flight = [''CAN:big.xlsx'']" by (simp add: large_in_flight_eq)
  have 4: "tick default_config w2 large_in_flight = large_in_flight"
    by (rule tick_large_in_flight) (simp add: large_in_flight_eq)
  have 5: "spawned (tick default_config w2 (tick default_config w1 exclusive_example)) =
     [(''CAN'', ''big.xlsx''), (''CAN'', ''two.xlsx''), (''CAN'', ''three.xlsx'')]"
    using example_second_tick[of "tick default_config w1 exclusive_example" w2] f by simp
  from pickBatch_large[of c cfg qs mx] tick_large_in_flight[of s cfg w] 1 2 3 4 5
  show ?thesis by blast
qed

theorem large_job_exclusive_witness:
  "large_head default_config (queues exclusive_example) ''CAN'' \<and>
   fst (pickBatch default_config 5 (queues exclusive_example)) =
     [\<lparr>ctx = ''CAN'', pfile = ''big.xlsx'', large = True\<rparr>] \<and>
   list_ex snd (flags large_in_flight) \<and>
   tick default_config sample_world large_in_flight = large_in_flight"
proof -
  have c: "''CAN'' \<in> set (CTXS default_config)" by (simp add: default_config_def)
  have l: "large_head default_config (queues exclusive_example) ''CAN''"
    by (simp add: large_head_def qget_def exclusive_example_def default_config_def)
  have q: "qget (queues exclusive_example) ''CAN'' =
      [\<lparr>name = ''big.xlsx'', sizeMB = 100\<rparr>, \<lparr>name = ''two.xlsx'', sizeMB = 2\<rparr>,
       \<lparr>name = ''three.xlsx'', sizeMB = 3\<rparr>]"
    by (simp add: qget_def exclusive_example_def)
  have f: "list_ex snd (flags large_in_flight)" by (simp add: large_in_flight_eq)
  from large_job_exclusive[of "''CAN''" default_config "queues exclusive_example" 5 large_in_flight sample_world]
    c l f
  have "(\<exists>c' it q. c' \<in> set (CTXS default_config) \<and> qget (queues exclusive_example) c' = it # q \<and>
         fst (pickBatch default_config 5 (queues exclusive_example)) = [\<lparr>ctx = c', pfile = name it, large = True\<rparr>])"
    and t: "tick default_config sample_world large_in_flight = large_in_flight"
    by blast+
  then have "fst (pickBatch default_config 5 (queues exclusive_example)) =
     [\<lparr>ctx = ''CAN'', pfile = ''big.xlsx'', large = True\<rparr>]"
    using q by (auto simp: default_config_def)
  with l f t show ?thesis by simp
qed

lemma start_job_quarantined:
  assumes "MAX_FAILURES cfg \<le> failureCount s k" and "start_job cfg p s = (r, s')"
  shows "failedFiles s' = failedFiles s" and "runs_of k s' = runs_of k s"
    and "r = Some j \<Longrightarrow> job_key (fst j) \<noteq> k"
    and "job_key p = k \<Longrightarrow> r = None \<and> k \<in> processedOK s' \<and> spawned s' = spawned s"
  using assms
  by (auto simp: start_job_def Let_def failureCount_def job_finally_def runs_of_def job_key_def
      split: if_splits)

lemma start_jobs_quarantined:
  assumes "MAX_FAILURES cfg \<le> failureCount s k" and "start_jobs cfg ps s = (js, s')"
  shows "failedFiles s' = failedFiles s \<and> runs_of k s' = runs_of k s \<and>
         (\<forall>j\<in>set js. job_key (fst j) \<noteq> k)"
  using assms
proof (induction ps arbitrary: s js s')
  case Nil
  then show ?case by simp
next
  case (Cons p ps)
  obtain r s1 where a: "start_job cfg p s = (r, s1)" by force
  obtain rs s2 where b: "start_jobs cfg ps s1 = (rs, s2)" by force
  note q = start_job_quarantined[OF Cons.prems(1) a]
  have "MAX_FAILURES cfg \<le> failureCount s1 k"
    using Cons.prems(1) q(1) by (simp add: failureCount_def)
  note ih = Cons.IH[OF this b]
  have res: "js = (case r of None \<Rightarrow> rs | Some j \<Rightarrow> j # rs)" "s' = s2"
    using Cons.prems(2) a b by simp_all
  show ?case
  proof (cases r)
    case None
    then show ?thesis using ih q(1,2) res by simp
  next
    case (Some j)
    then show ?thesis using ih q(1,2) q(3)[of j] res by simp
  qed
qed

lemma finish_job_other:
  "job_key (fst j) \<noteq> k \<Longrightarrow>
   failedFiles (finish_job cfg w j s) k = failedFiles s k \<and>
   spawned (finish_job cfg w j s) = spawned s"
  by (simp add: finish_job_def job_finally_def job_key_def Let_def split: outcome.splits)

lemma finish_jobs_other:
  "\<forall>j\<in>set js. job_key (fst j) \<noteq> k \<Longrightarrow>
   failedFiles (foldl (\<lambda>a j. finish_job cfg w j a) s js) k = failedFiles s k \<and>
   spawned (foldl (\<lambda>a j. finish_job cfg w j a) s js) = spawned s"
  by (induction js arbitrary: s) (auto simp: finish_job_other)

lemma processBatch_quarantined:
  assumes "MAX_FAILURES cfg \<le> failureCount s k"
  shows "failedFiles (processBatch cfg w b s) k = failedFiles s k \<and>
         runs_of k (processBatch cfg w b s) = runs_of k s"
proof -
  obtain js s1 where a: "start_jobs cfg b s = (js, s1)" by force
  note q = start_jobs_quarantined[OF assms a]
  from finish_jobs_other[of js k cfg w s1] q
  show ?thesis by (simp add: processBatch_def a runs_of_def)
qed

lemma scanAll_frame:
  "failedFiles (snd (scanAll cfg w s)) = failedFiles s \<and> spawned (snd (scanAll cfg w s)) = spawned s"
  by (simp add: scanAll_def split: outcome.splits)

lemma scan_phase_frame:
  "failedFiles (snd (scan_phase cfg w s)) = failedFiles s \<and>
   spawned (snd (scan_phase cfg w s)) = spawned s"
  using scanAll_frame[of cfg w s]
  by (auto simp: scan_phase_def split: phase.splits prod.splits outcome.splits)

lemma tick_quarantined:
  assumes "MAX_FAILURES cfg \<le> failureCount s k"
  shows "failedFiles (tick cfg w s) k = failedFiles s k \<and> runs_of k (tick cfg w s) = runs_of k s"
proof (cases "ticking s")
  case True
  then show ?thesis by (simp add: tick_def)
next
  case False
  let ?s0 = "s\<lparr>ticking := True\<rparr>"
  obtain r1 s1 where sp: "scan_phase cfg w ?s0 = (r1, s1)" by force
  with scan_phase_frame[of cfg w ?s0]
  have f1: "failedFiles s1 = failedFiles s" "spawned s1 = spawned s" by simp_all
  have "failedFiles (snd (tick_body cfg w ?s0)) k = failedFiles s k \<and>
        runs_of k (snd (tick_body cfg w ?s0)) = runs_of k s"
  proof (cases "list_ex snd (flags s)")
    case True
    then show ?thesis by (simp add: tick_body_def runs_of_def)
  next
    case nf: False
    show ?thesis
    proof (cases r1)
      case (Thrown x)
      then show ?thesis using nf sp f1 by (simp add: tick_body_def runs_of_def)
    next
      case (Returned u)
      obtain batch qs where pb: "pickBatch cfg (PARALLEL_LIMIT cfg - length (inFlight s1)) (queues s1) = (batch, qs)"
        by force
      have q: "MAX_FAILURES cfg \<le> failureCount (s1\<lparr>queues := qs\<rparr>) k"
        using assms f1 by (simp add: failureCount_def)
      from processBatch_quarantined[OF q, of w batch] f1
      have "failedFiles (processBatch cfg w batch (s1\<lparr>queues := qs\<rparr>)) k = failedFiles s k \<and>
            runs_of k (processBatch cfg w batch (s1\<lparr>queues := qs\<rparr>)) = runs_of k s"
        by (simp add: runs_of_def)
      then show ?thesis using nf sp f1 Returned pb
        by (simp add: tick_body_def runs_of_def Let_def)
    qed
  qed
  then show ?thesis using False
    by (cases "tick_body cfg w ?s0") (simp add: tick_def runs_of_def)
qed

lemma ticks_quarantined:
  "MAX_FAILURES cfg \<le> failureCount s k \<Longrightarrow>
   failedFiles (foldl (\<lambda>a w. tick cfg w a) s ws) k = failedFiles s k \<and>
   runs_of k (foldl (\<lambda>a w. tick cfg w a) s ws) = runs_of k s"
proof (induction ws arbitrary: s)
  case Nil
  then show ?case by simp
next
  case (Cons w ws)
  note t = tick_quarantined[OF Cons.prems, of w]
  then have "MAX_FAILURES cfg \<le> failureCount (tick cfg w s) k"
    using Cons.prems by (simp add: failureCount_def)
  from Cons.IH[OF this] t show ?case by simp
qed

lemma thrice_failed_eq:
  "thrice_failed =
     (start default_config)
       \<lparr>failedFiles := [''CAN:a.xlsx'' \<mapsto> 3],
        spawned := [(''CAN'', ''a.xlsx''), (''CAN'', ''a.xlsx''), (''CAN'', ''a.xlsx'')]\<rparr>"
  by (simp add: thrice_failed_def processBatch_def start_job_def finish_job_def job_finally_def
      failureCount_def keyOf_def Let_def start_def default_config_def failing_world_def
      poison_job_def eval_nat_numeral)

text \<open>
  Claim C5 as stated fails: after three failures in a row that are not timeouts, with
  \<open>MAX_FAILURES\<close> 3, the key has a failure count of 3 and is not marked processed.
\<close>

theorem third_failure_not_marked:
  "MAX_FAILURES default_config = 3 \<and>
   failureCount thrice_failed ''CAN:a.xlsx'' = 3 \<and>
   ''CAN:a.xlsx'' \<notin> processedOK thrice_failed \<and>
   spawned thrice_failed = [(''CAN'', ''a.xlsx''), (''CAN'', ''a.xlsx''), (''CAN'', ''a.xlsx'')]"
  by (simp add: thrice_failed_eq failureCount_def start_def default_config_def)

text \<open>
  Claim C5, as the code has it. A job that ends in an error, timeout or not, adds one to
  the failure counter of its key, and a timeout that brings the counter to
  \<open>MAX_FAILURES\<close> marks the key processed at once; a job that succeeds clears the counter
  and marks the key processed; and once the counter of a key has reached \<open>MAX_FAILURES\<close>,
  a job of that key that is dispatched is skipped (no worker is created) and marked
  processed, and no sequence of ticks, in whatever worlds, changes the counter or creates
  a worker for the key again.
\<close>

theorem quarantine:
  "(worker w (snd j) = Thrown x \<longrightarrow>
      failureCount (finish_job cfg w j s) (job_key (fst j)) = failureCount s (job_key (fst j)) + 1 \<and>
      (str_includes (err_str x) ''TIMEOUT'' \<and> MAX_FAILURES cfg \<le> failureCount s (job_key (fst j)) + 1 \<longrightarrow>
         job_key (fst j) \<in> processedOK (finish_job cfg w j s))) \<and>
   (worker w (snd j) = Returned () \<longrightarrow>
      failedFiles (finish_job cfg w j s) (job_key (fst j)) = None \<and>
      job_key (fst j) \<in> processedOK (finish_job cfg w j s)) \<and>
   (MAX_FAILURES cfg \<le> failureCount s k \<longrightarrow>
      (job_key p = k \<longrightarrow>
         fst (start_job cfg p s) = None \<and> k \<in> processedOK (snd (start_job cfg p s)) \<and>
         spawned (snd (start_job cfg p s)) = spawned s) \<and>
      failureCount (foldl (\<lambda>a w. tick cfg w a) s ws) k = failureCount s k \<and>
      runs_of k (foldl (\<lambda>a w. tick cfg w a) s ws) = runs_of k s)"
proof (intro conjI impI)
  assume "worker w (snd j) = Thrown x"
  then show "failureCount (finish_job cfg w j s) (job_key (fst j)) = failureCount s (job_key (fst j)) + 1"
    by (simp add: finish_job_def job_finally_def job_key_def failureCount_def Let_def)
next
  assume "worker w (snd j) = Thrown x"
    and "str_includes (err_str x) ''TIMEOUT'' \<and> MAX_FAILURES cfg \<le> failureCount s (job_key (fst j)) + 1"
  then show "job_key (fst j) \<in> processedOK (finish_job cfg w j s)"
    by (simp add: finish_job_def job_finally_def job_key_def Let_def)
next
  assume "worker w (snd j) = Returned ()"
  then show "failedFiles (finish_job cfg w j s) (job_key (fst j)) = None"
    and "job_key (fst j) \<in> processedOK (finish_job cfg w j s)"
    by (simp_all add: finish_job_def job_finally_def job_key_def Let_def)
next
  assume q: "MAX_FAILURES cfg \<le> failureCount s k"
  obtain r s' where a: "start_job cfg p s = (r, s')" by force
  { assume "job_key p = k"
    from start_job_quarantined(4)[OF q a this]
    show "fst (start_job cfg p s) = None" "k \<in> processedOK (snd (start_job cfg p s))"
      "spawned (snd (start_job cfg p s)) = spawned s"
      by (simp_all add: a) }
  from ticks_quarantined[OF q, of ws]
  show "failureCount (foldl (\<lambda>a w. tick cfg w a) s ws) k = failureCount s k"
    and "runs_of k (foldl (\<lambda>a w. tick cfg w a) s ws) = runs_of k s"
    by (simp_all add: failureCount_def)
qed

theorem quarantine_witness:
  "MAX_FAILURES default_config \<le> failureCount thrice_failed ''CAN:a.xlsx'' \<and>
   fst (start_job default_config poison_job thrice_failed) = None \<and>
   ''CAN:a.xlsx'' \<in> processedOK (snd (start_job default_config poison_job thrice_failed)) \<and>
   runs_of ''CAN:a.xlsx'' (foldl (\<lambda>a w. tick default_config w a) thrice_failed [sample_world, failing_world]) =
     [(''CAN'', ''a.xlsx''), (''CAN'', ''a.xlsx''), (''CAN'', ''a.xlsx'')] \<and>
   failureCount (finish_job default_config failing_world (poison_job, 0) (start default_config)) ''CAN:a.xlsx'' = 1 \<and>
   failedFiles (finish_job default_config sample_world (poison_job, 0) thrice_failed) ''CAN:a.xlsx'' = None \<and>
   ''CAN:a.xlsx'' \<in> processedOK (finish_job default_config sample_world (poison_job, 0) thrice_failed)"
proof -
  have k: "job_key poison_job = ''CAN:a.xlsx''" by (simp add: job_key_def poison_job_def keyOf_def)
  have q: "MAX_FAILURES default_config \<le> failureCount thrice_failed ''CAN:a.xlsx''"
    by (simp add: thrice_failed_eq failureCount_def default_config_def)
  have r: "runs_of ''CAN:a.xlsx'' thrice_failed =
      [(''CAN'', ''a.xlsx''), (''CAN'', ''a.xlsx''), (''CAN'', ''a.xlsx'')]"
    by (simp add: runs_of_def thrice_failed_eq keyOf_def)
  have f: "worker failing_world (snd (poison_job, 0::nat)) = Thrown \<lparr>err_code = None, err_str = ''worker exit 1''\<rparr>"
    by (simp add: failing_world_def)
  have g: "worker sample_world (snd (poison_job, 0::nat)) = Returned ()"
    by (simp add: sample_world_def)
  have z: "failureCount (start default_config) ''CAN:a.xlsx'' = 0"
    by (simp add: failureCount_def start_def)
  from quarantine[where cfg = default_config and s = thrice_failed and k = "''CAN:a.xlsx''"
      and p = poison_job and ws = "[sample_world, failing_world]" and j = "(poison_job, 0)"
      and w = sample_world]
    k q r g
  have 1: "fst (start_job default_config poison_job thrice_failed) = None \<and>
   ''CAN:a.xlsx'' \<in> processedOK (snd (start_job default_config poison_job thrice_failed)) \<and>
   runs_of ''CAN:a.xlsx'' (foldl (\<lambda>a w. tick default_config w a) thrice_failed [sample_world, failing_world]) =
     [(''CAN'', ''a.xlsx''), (''CAN'', ''a.xlsx''), (''CAN'', ''a.xlsx'')] \<and>
   failedFiles (finish_job default_config sample_world (poison_job, 0) thrice_failed) ''CAN:a.xlsx'' = None \<and>
   ''CAN:a.xlsx'' \<in> processedOK (finish_job default_config sample_world (poison_job, 0) thrice_failed)"
    by simp
  from quarantine[where cfg = default_config and s = "start default_config" and j = "(poison_job, 0)"
      and w = failing_world and x = "\<lparr>err_code = None, err_str = ''worker exit 1''\<rparr>"]
    k f z
  have 2: "failureCount (finish_job default_config failing_world (poison_job, 0) (start default_config)) ''CAN:a.xlsx'' = 1"
    by simp
  from q 1 2 show ?thesis by simp
qed

end
